theory Spec2Isabelle
  imports Complex_Main "HOL-Library.Monad_Syntax"
begin

section \<open>The notebook's two-armed Bernoulli bandit\<close>

text \<open>
  The notebook keeps its states in data frames: one row per state, columns 0..3 holding
  the Beta pseudo-counts \<open>(a1, b1, a2, b2)\<close>, column 4 the value and column 5 the choice
  of machine. A table is the list of its rows, in row order. The arguments are Python
  integers; once they are in a frame, the counts are \<open>numpy\<close> 64-bit integers, whose
  addition wraps around silently, and after a float has been stored into a frame its
  rows may be held as 64-bit floats, which are exact on integers below \<open>2^53\<close> only.
  The recorded outputs of the notebook (the \<open>print\<close> of several arguments, the
  fractional values) are those of true division, so \<open>/\<close> is modelled as division of
  reals; the rounding of float values is not modelled.
\<close>

type_synonym node = "int \<times> int \<times> int \<times> int"

type_synonym row = "node \<times> real \<times> real option"

subsection \<open>Machine integers\<close>

text \<open>The range of a signed 64-bit integer, the result of an addition of two of them,
  and the integers that are the same number as a 64-bit integer and as a 64-bit float.\<close>

definition int64 :: "int \<Rightarrow> bool" where
  "int64 x \<longleftrightarrow> - (2 ^ 63) \<le> x \<and> x < 2 ^ 63"

definition wrap64 :: "int \<Rightarrow> int" where
  "wrap64 x = (x + 2 ^ 63) mod 2 ^ 64 - 2 ^ 63"

definition float_exact :: "int \<Rightarrow> bool" where
  "float_exact x \<longleftrightarrow> - (2 ^ 53) < x \<and> x < 2 ^ 53"

subsection \<open>The enumerator \<open>f\<close>\<close>

text \<open>The four lists \<open>A, B, C, D\<close> that \<open>f\<close> builds from its arguments: one count raised by
  one, in Python's unbounded integers.\<close>

definition ABCD :: "node \<Rightarrow> node list" where
  "ABCD s = (case s of (a, b, c, d) \<Rightarrow>
     [(a + 1, b, c, d), (a, b + 1, c, d), (a, b, c + 1, d), (a, b, c, d + 1)])"

text \<open>\<open>pd.DataFrame(np.array(...))\<close> of lists of Python integers: a frame of 64-bit integers
  when every entry is in their range. Otherwise \<open>numpy\<close> takes another type for the whole
  array (unsigned, float or object), and the model says nothing: \<open>None\<close>.\<close>

definition np_array :: "node list \<Rightarrow> node list option" where
  "np_array rows =
     (if list_all (\<lambda>(a, b, c, d). int64 a \<and> int64 b \<and> int64 c \<and> int64 d) rows
      then Some rows else None)"

text \<open>The four rows \<open>A, B, C, D\<close> that the loop builds from a row of the frame,
  \<open>Nodes.ix[i,:] + np.array([1,0,0,0])\<close> and so on: the sum of 64-bit integers wraps
  around; the counts to which 0 is added stay as they are.\<close>

definition ABCD_ix :: "node \<Rightarrow> node list" where
  "ABCD_ix s = (case s of (a, b, c, d) \<Rightarrow>
     [(wrap64 (a + 1), b, c, d), (a, wrap64 (b + 1), c, d),
      (a, b, wrap64 (c + 1), d), (a, b, c, wrap64 (d + 1))])"

text \<open>\<open>DataFrame.drop_duplicates\<close>: the first occurrence of every row is kept, in order.\<close>

fun drop_duplicates :: "'a list \<Rightarrow> 'a list" where
  "drop_duplicates [] = []"
| "drop_duplicates (x # xs) = x # drop_duplicates (filter (\<lambda>y. y \<noteq> x) xs)"

text \<open>One pass of the outer loop: \<open>Nodes2\<close> collects \<open>A, B, C, D\<close> of every row of
  \<open>Nodes\<close>, and the duplicates are dropped.\<close>

definition Nodes2 :: "node list \<Rightarrow> node list" where
  "Nodes2 Nodes = concat (map ABCD_ix Nodes)"

fun outer_loop :: "nat \<Rightarrow> node list \<Rightarrow> node list" where
  "outer_loop 0 Nodes = Nodes"
| "outer_loop (Suc k) Nodes = outer_loop k (drop_duplicates (Nodes2 Nodes))"

text \<open>\<open>for j in range(2, n)\<close> runs \<open>n - 2\<close> times, and not at all when \<open>n \<le> 2\<close>.\<close>

definition f :: "int \<Rightarrow> int \<Rightarrow> int \<Rightarrow> int \<Rightarrow> int \<Rightarrow> node list option" where
  "f a b c d n =
     (if n = 1 then np_array [(a, b, c, d)]
      else map_option (outer_loop (nat (n - 2))) (np_array (ABCD (a, b, c, d))))"

text \<open>The states \<open>k\<close> pulls away from a state, as a set: \<open>k\<close> increments spread over the
  four counts. The rows of \<open>f(a, b, c, d, n)\<close> are \<open>layer_index n\<close> pulls away.\<close>

definition layer :: "node \<Rightarrow> nat \<Rightarrow> node set" where
  "layer s k = (case s of (a, b, c, d) \<Rightarrow>
     {(a + int i, b + int j, c + int l, d + int m) | i j l m. i + j + l + m = k})"

definition layer_index :: "int \<Rightarrow> nat" where
  "layer_index n = (if n = 1 then 0 else Suc (nat (n - 2)))"

text \<open>What the theorems ask of the counts: that \<open>k\<close> more pulls keep each of them a
  64-bit integer, for the enumerator; and below \<open>2^53\<close> in size, for the tables of values.\<close>

definition fits_int64 :: "node \<Rightarrow> nat \<Rightarrow> bool" where
  "fits_int64 s k = (case s of (a, b, c, d) \<Rightarrow>
     int64 a \<and> int64 (a + int k) \<and> int64 b \<and> int64 (b + int k)
     \<and> int64 c \<and> int64 (c + int k) \<and> int64 d \<and> int64 (d + int k))"

definition fits_float :: "node \<Rightarrow> nat \<Rightarrow> bool" where
  "fits_float s k = (case s of (a, b, c, d) \<Rightarrow>
     float_exact a \<and> float_exact (a + int k) \<and> float_exact b \<and> float_exact (b + int k)
     \<and> float_exact c \<and> float_exact (c + int k) \<and> float_exact d \<and> float_exact (d + int k))"

subsection \<open>The backward pass\<close>

text \<open>\<open>minimize_func\<close>, as written: \<open>p\<close> mixes the two machines, \<open>E1, E2\<close> are the
  stored values after a success and a failure of machine 1, \<open>E3, E4\<close> those of machine 2.\<close>

definition minimize_func :: "real \<Rightarrow> real \<Rightarrow> real \<Rightarrow> real \<Rightarrow> real \<Rightarrow> real" where
  "minimize_func p E1 E2 E3 E4 =
     - (p * (1 + E1) + p * (0 + E2) + (1 - p) * (1 + E3) + (1 - p) * (0 + E4))"

text \<open>\<open>np.round\<close> rounds to the nearest integer, a half to the even neighbour.\<close>

definition np_round :: "real \<Rightarrow> real" where
  "np_round x =
     (let n = \<lfloor>x\<rfloor>; r = x - of_int n
      in if r < 1 / 2 then of_int n
         else if 1 / 2 < r then of_int (n + 1)
         else if even n then of_int n else of_int (n + 1))"

text \<open>\<open>Final_Nodes.values[np.alltrue(Final_Nodes.ix[:,0:3] == A, axis = 1), 4]\<close>: column 4
  of every row whose counts equal \<open>A\<close>, as an array. When no row has these counts the
  array is empty; the selection itself raises nothing.\<close>

definition selection :: "row list \<Rightarrow> node \<Rightarrow> real list" where
  "selection Final_Nodes A = map (\<lambda>r. fst (snd r)) (filter (\<lambda>r. fst r = A) Final_Nodes)"

text \<open>The notebook goes on with the selected arrays as if each held one number. The
  model follows it there, and only there: with an empty or a longer selection the result
  is left to the broadcasting of \<open>numpy\<close> and to what \<open>scipy\<close> and \<open>pandas\<close> do with
  arrays, which the notebook does not fix. \<open>None\<close> marks that the model says nothing; it
  is not an error of the program.\<close>

fun scalar :: "real list \<Rightarrow> real option" where
  "scalar [E] = Some E"
| "scalar Es = None"

text \<open>The body of the loop of \<open>Previous_Nodes_Func\<close> for one row. The optimizer of
  \<open>scipy\<close> is no code of the notebook: \<open>minimize_scalar\<close> stands for the \<open>.x\<close> of
  \<open>minimize_scalar(fun, method = 'bounded', bounds = [0,1], args = ...)\<close> and is a
  parameter. The row \<open>Node\<close> is read from a frame into which floats are stored, and
  \<open>Node + np.array([1,0,0,0])\<close> is a sum of 64-bit integers or of floats, as the frame
  holds the row; the model follows the notebook where both are the exact sum, and says
  nothing (\<open>None\<close>) otherwise.\<close>

definition Previous_row :: "((real \<Rightarrow> real) \<Rightarrow> real) \<Rightarrow> row list \<Rightarrow> node \<Rightarrow> row option" where
  "Previous_row minimize_scalar Final_Nodes Node = (case Node of (a, b, c, d) \<Rightarrow>
     if list_all float_exact [a, a + 1, b, b + 1, c, c + 1, d, d + 1] then
       do {
         E1 \<leftarrow> scalar (selection Final_Nodes (a + 1, b, c, d));
         E2 \<leftarrow> scalar (selection Final_Nodes (a, b + 1, c, d));
         E3 \<leftarrow> scalar (selection Final_Nodes (a, b, c + 1, d));
         E4 \<leftarrow> scalar (selection Final_Nodes (a, b, c, d + 1));
         let choice = np_round (minimize_scalar (\<lambda>p. minimize_func p E1 E2 E3 E4));
         Some (Node, - minimize_func choice E1 E2 E3 E4, Some choice)
       }
     else None)"

definition Previous_Nodes_Func ::
  "((real \<Rightarrow> real) \<Rightarrow> real) \<Rightarrow> int \<Rightarrow> int \<Rightarrow> int \<Rightarrow> int \<Rightarrow> int \<Rightarrow> row list \<Rightarrow> row list option" where
  "Previous_Nodes_Func minimize_scalar a1 b1 a2 b2 N Final_Nodes =
     do {
       Previous_Nodes \<leftarrow> f a1 b1 a2 b2 N;
       those (map (Previous_row minimize_scalar Final_Nodes) Previous_Nodes)
     }"

text \<open>Division of two \<open>numpy\<close> numbers gives \<open>inf\<close> or \<open>nan\<close> on a zero divisor; these are
  no reals, and the model says nothing there (\<open>None\<close>).\<close>

definition np_divide :: "int \<Rightarrow> int \<Rightarrow> real option" where
  "np_divide x y = (if y = 0 then None else Some (real_of_int x / real_of_int y))"

text \<open>The body of the first loop of \<open>Bernoulli_Bandit\<close>: \<open>E_1\<close> and \<open>E_2\<close>, the posterior
  means of the two machines, and the greedy value of a final row. The row has no
  column 5. The sums \<open>a1 + b1\<close> and \<open>a2 + b2\<close> are sums of 64-bit integers, or of floats
  once the first value has been stored; as above the model follows the notebook where
  the counts are below \<open>2^53\<close> in size.\<close>

definition E_1_E_2 :: "node \<Rightarrow> (real \<times> real) option" where
  "E_1_E_2 Node = (case Node of (a1, b1, a2, b2) \<Rightarrow>
     if list_all float_exact [a1, b1, a2, b2] then
       do {
         E_1 \<leftarrow> np_divide a1 (a1 + b1);
         E_2 \<leftarrow> np_divide a2 (a2 + b2);
         Some (E_1, E_2)
       }
     else None)"

definition Final_row :: "node \<Rightarrow> row option" where
  "Final_row Node = do { (E_1, E_2) \<leftarrow> E_1_E_2 Node; Some (Node, max E_1 E_2, None) }"

definition Final_Nodes :: "int \<Rightarrow> int \<Rightarrow> int \<Rightarrow> int \<Rightarrow> int \<Rightarrow> row list option" where
  "Final_Nodes a1 b1 a2 b2 N =
     do {
       Nodes \<leftarrow> f a1 b1 a2 b2 N;
       those (map Final_row Nodes)
     }"

text \<open>\<open>for j in range(1,N)[::-1]\<close>: the list of the values of \<open>j\<close> is the first
  argument.\<close>

fun backward ::
  "((real \<Rightarrow> real) \<Rightarrow> real) \<Rightarrow> int \<Rightarrow> int \<Rightarrow> int \<Rightarrow> int \<Rightarrow> int list \<Rightarrow> row list \<Rightarrow> row list option" where
  "backward minimize_scalar a1 b1 a2 b2 [] Previous_Node = Some Previous_Node"
| "backward minimize_scalar a1 b1 a2 b2 (j # js) Previous_Node =
     do {
       P \<leftarrow> Previous_Nodes_Func minimize_scalar a1 b1 a2 b2 j Previous_Node;
       backward minimize_scalar a1 b1 a2 b2 js P
     }"

definition Bernoulli_Bandit ::
  "((real \<Rightarrow> real) \<Rightarrow> real) \<Rightarrow> int \<Rightarrow> int \<Rightarrow> int \<Rightarrow> int \<Rightarrow> int \<Rightarrow> row list option" where
  "Bernoulli_Bandit minimize_scalar a1 b1 a2 b2 N =
     do {
       Final \<leftarrow> Final_Nodes a1 b1 a2 b2 N;
       backward minimize_scalar a1 b1 a2 b2 (rev [1..N - 1]) Final
     }"

subsection \<open>The optimizer, and what the tables hold\<close>

text \<open>What the theorems below ask of the optimizer. The bounded method of \<open>scipy\<close> returns
  a point within its bounds; and it comes to within its tolerance (far less than a half)
  of a minimum of the objective over the bounds.\<close>

definition in_bounds :: "((real \<Rightarrow> real) \<Rightarrow> real) \<Rightarrow> bool" where
  "in_bounds minimize_scalar \<longleftrightarrow> (\<forall>g. 0 \<le> minimize_scalar g \<and> minimize_scalar g \<le> 1)"

definition minimum_on_bounds :: "(real \<Rightarrow> real) \<Rightarrow> real \<Rightarrow> bool" where
  "minimum_on_bounds g m \<longleftrightarrow> 0 \<le> m \<and> m \<le> 1 \<and> (\<forall>p. 0 \<le> p \<and> p \<le> 1 \<longrightarrow> g m \<le> g p)"

definition finds_minimum :: "((real \<Rightarrow> real) \<Rightarrow> real) \<Rightarrow> bool" where
  "finds_minimum minimize_scalar \<longleftrightarrow>
     (\<forall>E1 E2 E3 E4. \<exists>m. minimum_on_bounds (\<lambda>p. minimize_func p E1 E2 E3 E4) m
        \<and> \<bar>minimize_scalar (\<lambda>p. minimize_func p E1 E2 E3 E4) - m\<bar> < 1 / 2)"

text \<open>An optimizer that is exact on every objective that is affine in \<open>p\<close>, as
  \<open>minimize_func\<close> is: the better end of the bounds. The theorems that ask something of
  the optimizer are applied to it, and the tables of concrete runs are computed with it.\<close>

definition endpoint_minimizer :: "(real \<Rightarrow> real) \<Rightarrow> real" where
  "endpoint_minimizer g = (if g 1 \<le> g 0 then 1 else 0)"

text \<open>The number the backward pass stores in column 4 for a state, \<open>t\<close> passes above the
  final layer, when the optimizer finds the minimum: the greedy value in the final layer,
  and above it the larger of the objective's two end values, \<open>1 + E1 + E2\<close> for machine 1
  and \<open>1 + E3 + E4\<close> for machine 2.\<close>

fun stored_value :: "nat \<Rightarrow> node \<Rightarrow> real" where
  "stored_value 0 (a1, b1, a2, b2) =
     max (real_of_int a1 / real_of_int (a1 + b1)) (real_of_int a2 / real_of_int (a2 + b2))"
| "stored_value (Suc t) (a, b, c, d) =
     max (- minimize_func 1 (stored_value t (a + 1, b, c, d)) (stored_value t (a, b + 1, c, d))
            (stored_value t (a, b, c + 1, d)) (stored_value t (a, b, c, d + 1)))
         (- minimize_func 0 (stored_value t (a + 1, b, c, d)) (stored_value t (a, b + 1, c, d))
            (stored_value t (a, b, c + 1, d)) (stored_value t (a, b, c, d + 1)))"

text \<open>Columns 0 to 4 of a table: the states with their values.\<close>

definition columns04 :: "row list \<Rightarrow> (node \<times> real) list" where
  "columns04 T = map (\<lambda>r. (fst r, fst (snd r))) T"

text \<open>The two numbers between which \<open>Bernoulli_Bandit\<close> chooses for the row of the initial
  state. With one trial they are the posterior means \<open>E_1\<close> and \<open>E_2\<close> of the first loop.
  With more trials they are those of the last pass (\<open>j = 1\<close>): the objective's value at
  \<open>p = 1\<close>, machine 1, and at \<open>p = 0\<close>, machine 2, negated as the notebook negates it.
  With less than one trial the run has no row for the initial state.\<close>

definition arm_values ::
  "((real \<Rightarrow> real) \<Rightarrow> real) \<Rightarrow> int \<Rightarrow> int \<Rightarrow> int \<Rightarrow> int \<Rightarrow> int \<Rightarrow> (real \<times> real) option" where
  "arm_values minimize_scalar a1 b1 a2 b2 N =
     (if N < 1 then None
      else if N = 1 then
        do {
          Nodes \<leftarrow> f a1 b1 a2 b2 N;
          case Nodes of [Node] \<Rightarrow> E_1_E_2 Node | _ \<Rightarrow> None
        }
      else
        do {
          Final \<leftarrow> Final_Nodes a1 b1 a2 b2 N;
          P \<leftarrow> backward minimize_scalar a1 b1 a2 b2 (rev [2..N - 1]) Final;
          E1 \<leftarrow> scalar (selection P (a1 + 1, b1, a2, b2));
          E2 \<leftarrow> scalar (selection P (a1, b1 + 1, a2, b2));
          E3 \<leftarrow> scalar (selection P (a1, b1, a2 + 1, b2));
          E4 \<leftarrow> scalar (selection P (a1, b1, a2, b2 + 1));
          Some (- minimize_func 1 E1 E2 E3 E4, - minimize_func 0 E1 E2 E3 E4)
        })"

subsection \<open>The specification's formulas\<close>

text \<open>The value of a machine in the specification: its posterior mean \<open>p\<close> as the expected
  reward now, plus \<open>p\<close> times the value after a success, plus \<open>1 - p\<close> times the value
  after a failure.\<close>

definition arm_value :: "int \<Rightarrow> int \<Rightarrow> real \<Rightarrow> real \<Rightarrow> real" where
  "arm_value \<alpha> \<beta> V_success V_failure =
     (let p = real_of_int \<alpha> / real_of_int (\<alpha> + \<beta>)
      in p + p * V_success + (1 - p) * V_failure)"

text \<open>The direct choice the specification asks for in place of the optimizer: the larger
  of the two machines' values, for one row and for the rows of a layer, from the table of
  the next layer's values.\<close>

definition direct_row :: "row list \<Rightarrow> node \<Rightarrow> (node \<times> real) option" where
  "direct_row Final Node = (case Node of (a1, b1, a2, b2) \<Rightarrow>
     do {
       E1 \<leftarrow> scalar (selection Final (a1 + 1, b1, a2, b2));
       E2 \<leftarrow> scalar (selection Final (a1, b1 + 1, a2, b2));
       E3 \<leftarrow> scalar (selection Final (a1, b1, a2 + 1, b2));
       E4 \<leftarrow> scalar (selection Final (a1, b1, a2, b2 + 1));
       Some (Node, max (arm_value a1 b1 E1 E2) (arm_value a2 b2 E3 E4))
     })"

definition direct_maximization :: "int \<Rightarrow> int \<Rightarrow> int \<Rightarrow> int \<Rightarrow> int \<Rightarrow> row list \<Rightarrow> (node \<times> real) list option" where
  "direct_maximization a1 b1 a2 b2 N Final =
     do {
       Nodes \<leftarrow> f a1 b1 a2 b2 N;
       those (map (direct_row Final) Nodes)
     }"

text \<open>The recursion of the specification, \<open>t\<close> trials remaining: with one trial the
  greedy value; with more, for each machine its posterior mean \<open>p\<close> as the expected
  reward now, plus \<open>p\<close> times the value after a success, plus \<open>1 - p\<close> times the value
  after a failure.\<close>

fun specified_value :: "nat \<Rightarrow> node \<Rightarrow> real" where
  "specified_value 0 s = 0"
| "specified_value (Suc 0) (a1, b1, a2, b2) =
     max (real_of_int a1 / real_of_int (a1 + b1)) (real_of_int a2 / real_of_int (a2 + b2))"
| "specified_value (Suc (Suc t)) (a1, b1, a2, b2) =
     (let p1 = real_of_int a1 / real_of_int (a1 + b1);
          p2 = real_of_int a2 / real_of_int (a2 + b2)
      in max (p1 + p1 * specified_value (Suc t) (a1 + 1, b1, a2, b2)
                 + (1 - p1) * specified_value (Suc t) (a1, b1 + 1, a2, b2))
             (p2 + p2 * specified_value (Suc t) (a1, b1, a2 + 1, b2)
                 + (1 - p2) * specified_value (Suc t) (a1, b1, a2, b2 + 1)))"

section \<open>Properties\<close>

lemma set_drop_duplicates: "set (drop_duplicates xs) = set xs"
  by (induction xs rule: drop_duplicates.induct) auto

lemma distinct_drop_duplicates: "distinct (drop_duplicates xs)"
  by (induction xs rule: drop_duplicates.induct) (auto simp: set_drop_duplicates)

subsection \<open>The layers of the enumerator\<close>

lemma wrap64_id: "int64 x \<Longrightarrow> wrap64 x = x"
  by (simp add: int64_def wrap64_def)

lemma fits_int64_mono: "fits_int64 s k \<Longrightarrow> j \<le> k \<Longrightarrow> fits_int64 s j"
  by (cases s) (auto simp: fits_int64_def int64_def)

lemma fits_float_mono: "fits_float s k \<Longrightarrow> j \<le> k \<Longrightarrow> fits_float s j"
  by (cases s) (auto simp: fits_float_def float_exact_def)

lemma fits_float_int64: "fits_float s k \<Longrightarrow> fits_int64 s k"
  by (cases s) (auto simp: fits_float_def fits_int64_def float_exact_def int64_def)

lemma layer_int64:
  assumes "s \<in> layer s0 j" "fits_int64 s0 k" "j \<le> k"
  shows "case s of (a, b, c, d) \<Rightarrow> int64 a \<and> int64 b \<and> int64 c \<and> int64 d"
  using assms by (cases s0) (auto simp: layer_def fits_int64_def int64_def)

lemma layer_int64_next:
  assumes "s \<in> layer s0 j" "fits_int64 s0 k" "j < k"
  shows "case s of (a, b, c, d) \<Rightarrow> int64 (a + 1) \<and> int64 (b + 1) \<and> int64 (c + 1) \<and> int64 (d + 1)"
  using assms by (cases s0) (auto simp: layer_def fits_int64_def int64_def)

lemma layer_float_exact:
  assumes "s \<in> layer s0 j" "fits_float s0 k" "j \<le> k"
  shows "case s of (a, b, c, d) \<Rightarrow> float_exact a \<and> float_exact b \<and> float_exact c \<and> float_exact d"
  using assms by (cases s0) (auto simp: layer_def fits_float_def float_exact_def)

lemma layer_float_exact_next:
  assumes "s \<in> layer s0 j" "fits_float s0 k" "j < k"
  shows "case s of (a, b, c, d) \<Rightarrow>
    float_exact (a + 1) \<and> float_exact (b + 1) \<and> float_exact (c + 1) \<and> float_exact (d + 1)"
  using assms by (cases s0) (auto simp: layer_def fits_float_def float_exact_def)

lemma ABCD_ix_eq:
  assumes "s \<in> layer s0 j" "fits_int64 s0 k" "j < k"
  shows "ABCD_ix s = ABCD s"
  using layer_int64_next [OF assms] by (cases s) (simp add: ABCD_ix_def ABCD_def wrap64_id)

lemma set_Nodes2: "set (Nodes2 Nodes) = (\<Union>s\<in>set Nodes. set (ABCD_ix s))"
  by (simp add: Nodes2_def)

lemma ABCD_layer: "(\<Union>s\<in>layer s0 k. set (ABCD s)) = layer s0 (Suc k)"
proof (cases s0)
  case (fields a b c d)
  show ?thesis
  proof (intro equalityI subsetI)
    fix x assume "x \<in> (\<Union>s\<in>layer s0 k. set (ABCD s))"
    then obtain i j l m where k: "i + j + l + m = k"
      and x: "x \<in> set (ABCD (a + int i, b + int j, c + int l, d + int m))"
      by (auto simp: layer_def fields)
    from x consider "x = (a + int (Suc i), b + int j, c + int l, d + int m)"
      | "x = (a + int i, b + int (Suc j), c + int l, d + int m)"
      | "x = (a + int i, b + int j, c + int (Suc l), d + int m)"
      | "x = (a + int i, b + int j, c + int l, d + int (Suc m))"
      by (auto simp: ABCD_def)
    then show "x \<in> layer s0 (Suc k)"
    proof cases
      case 1
      have "Suc i + j + l + m = Suc k" using k by simp
      with 1 show ?thesis unfolding layer_def fields by blast
    next
      case 2
      have "i + Suc j + l + m = Suc k" using k by simp
      with 2 show ?thesis unfolding layer_def fields by blast
    next
      case 3
      have "i + j + Suc l + m = Suc k" using k by simp
      with 3 show ?thesis unfolding layer_def fields by blast
    next
      case 4
      have "i + j + l + Suc m = Suc k" using k by simp
      with 4 show ?thesis unfolding layer_def fields by blast
    qed
  next
    fix x assume "x \<in> layer s0 (Suc k)"
    then obtain i j l m where k: "i + j + l + m = Suc k"
      and x: "x = (a + int i, b + int j, c + int l, d + int m)"
      by (auto simp: layer_def fields)
    from k consider "0 < i" | "0 < j" | "0 < l" | "0 < m" by fastforce
    then show "x \<in> (\<Union>s\<in>layer s0 k. set (ABCD s))"
    proof cases
      case 1
      let ?s = "(a + int (i - 1), b + int j, c + int l, d + int m)"
      have "(i - 1) + j + l + m = k" using k 1 by simp
      then have "?s \<in> layer s0 k" unfolding layer_def fields by blast
      moreover have "int (i - 1) + 1 = int i" using 1 by simp
      then have "x \<in> set (ABCD ?s)" by (simp add: x ABCD_def add.assoc)
      ultimately show ?thesis by blast
    next
      case 2
      let ?s = "(a + int i, b + int (j - 1), c + int l, d + int m)"
      have "i + (j - 1) + l + m = k" using k 2 by simp
      then have "?s \<in> layer s0 k" unfolding layer_def fields by blast
      moreover have "int (j - 1) + 1 = int j" using 2 by simp
      then have "x \<in> set (ABCD ?s)" by (simp add: x ABCD_def add.assoc)
      ultimately show ?thesis by blast
    next
      case 3
      let ?s = "(a + int i, b + int j, c + int (l - 1), d + int m)"
      have "i + j + (l - 1) + m = k" using k 3 by simp
      then have "?s \<in> layer s0 k" unfolding layer_def fields by blast
      moreover have "int (l - 1) + 1 = int l" using 3 by simp
      then have "x \<in> set (ABCD ?s)" by (simp add: x ABCD_def add.assoc)
      ultimately show ?thesis by blast
    next
      case 4
      let ?s = "(a + int i, b + int j, c + int l, d + int (m - 1))"
      have "i + j + l + (m - 1) = k" using k 4 by simp
      then have "?s \<in> layer s0 k" unfolding layer_def fields by blast
      moreover have "int (m - 1) + 1 = int m" using 4 by simp
      then have "x \<in> set (ABCD ?s)" by (simp add: x ABCD_def add.assoc)
      ultimately show ?thesis by blast
    qed
  qed
qed

lemma layer_0: "layer s 0 = {s}"
  by (cases s) (auto simp: layer_def)

lemma set_outer_loop:
  "set Nodes = layer s0 j \<Longrightarrow> fits_int64 s0 (j + k) \<Longrightarrow> set (outer_loop k Nodes) = layer s0 (j + k)"
proof (induction k arbitrary: Nodes j)
  case 0
  then show ?case by simp
next
  case (Suc k)
  have "ABCD_ix s = ABCD s" if "s \<in> layer s0 j" for s
    using that Suc.prems(2) by (rule ABCD_ix_eq) simp
  then have "set (drop_duplicates (Nodes2 Nodes)) = layer s0 (Suc j)"
    by (simp add: set_drop_duplicates set_Nodes2 Suc.prems(1) ABCD_layer [symmetric])
  from Suc.IH [OF this] Suc.prems(2) show ?case by simp
qed

lemma distinct_ABCD: "distinct (ABCD s)"
  by (cases s) (simp add: ABCD_def)

lemma distinct_outer_loop: "distinct Nodes \<Longrightarrow> distinct (outer_loop k Nodes)"
  by (induction k arbitrary: Nodes) (simp_all add: distinct_drop_duplicates)

lemma set_ABCD_layer: "set (ABCD s) = layer s 1"
  using ABCD_layer [of s 0] by (simp add: layer_0)

lemma np_array_Some:
  "(\<And>s. s \<in> set rows \<Longrightarrow> case s of (a, b, c, d) \<Rightarrow> int64 a \<and> int64 b \<and> int64 c \<and> int64 d)
    \<Longrightarrow> np_array rows = Some rows"
  by (auto simp: np_array_def list_all_iff)

lemma f_rows:
  assumes "fits_int64 (a, b, c, d) (layer_index n)"
  shows "\<exists>rows. f a b c d n = Some rows \<and> distinct rows
    \<and> set rows = layer (a, b, c, d) (layer_index n)"
proof (cases "n = 1")
  case True
  have "np_array [(a, b, c, d)] = Some [(a, b, c, d)]"
    using assms by (intro np_array_Some) (auto simp: fits_int64_def)
  with True show ?thesis by (simp add: f_def layer_index_def layer_0)
next
  case False
  let ?k = "nat (n - 2)"
  from False have k: "layer_index n = 1 + ?k" by (simp add: layer_index_def)
  have "np_array (ABCD (a, b, c, d)) = Some (ABCD (a, b, c, d))"
  proof (rule np_array_Some)
    fix s assume "s \<in> set (ABCD (a, b, c, d))"
    then have "s \<in> layer (a, b, c, d) 1" by (simp only: set_ABCD_layer)
    from layer_int64 [OF this assms] k
    show "case s of (a, b, c, d) \<Rightarrow> int64 a \<and> int64 b \<and> int64 c \<and> int64 d" by simp
  qed
  moreover have "set (outer_loop ?k (ABCD (a, b, c, d))) = layer (a, b, c, d) (1 + ?k)"
    using assms by (intro set_outer_loop set_ABCD_layer) (simp add: k)
  ultimately show ?thesis
    using False by (simp add: f_def k distinct_outer_loop distinct_ABCD)
qed

lemma layer_index_Suc: "layer_index (int k + 1) = k"
  by (cases k) (simp_all add: layer_index_def)

lemma layer_index_pos: "1 \<le> n \<Longrightarrow> layer_index n = nat (n - 1)"
  by (auto simp: layer_index_def)

lemma card_layer: "card (layer s k) = (k + 3) choose 3"
proof (cases s)
  case (fields a b c d)
  let ?L = "{l::nat list. length l = 4 \<and> sum_list l = k}"
  let ?g = "\<lambda>l::nat list. (a + int (l ! 0), b + int (l ! 1), c + int (l ! 2), d + int (l ! 3))"
  have len4: "\<exists>i j l m. xs = [i, j, l, m]" if "length xs = 4" for xs :: "nat list"
    using that by (auto simp: length_Suc_conv numeral_eq_Suc)
  have "layer s k = ?g ` ?L"
  proof (intro equalityI subsetI)
    fix x assume "x \<in> layer s k"
    then obtain i j l m where "i + j + l + m = k" "x = (a + int i, b + int j, c + int l, d + int m)"
      by (auto simp: layer_def fields)
    then have "[i, j, l, m] \<in> ?L" "x = ?g [i, j, l, m]" by auto
    then show "x \<in> ?g ` ?L" by blast
  next
    fix x assume "x \<in> ?g ` ?L"
    then obtain xs where xs: "length xs = 4" "sum_list xs = k" "x = ?g xs" by auto
    from len4 [OF xs(1)] obtain i j l m where "xs = [i, j, l, m]" by blast
    with xs show "x \<in> layer s k" by (auto simp: layer_def fields)
  qed
  moreover have "inj_on ?g ?L"
  proof (rule inj_onI)
    fix xs ys assume "xs \<in> ?L" "ys \<in> ?L" and eq: "?g xs = ?g ys"
    then have "length xs = 4" "length ys = 4" by auto
    then obtain i j l m i' j' l' m' where "xs = [i, j, l, m]" "ys = [i', j', l', m']"
      using len4 by metis
    with eq show "xs = ys" by simp
  qed
  ultimately have "card (layer s k) = card ?L" by (simp add: card_image)
  also have "\<dots> = (k + 4 - 1) choose k" by (rule card_length_sum_list)
  also have "\<dots> = (k + 3) choose 3" using binomial_symmetric [of k "k + 3"] by (simp add: add.commute)
  finally show ?thesis .
qed

text \<open>At the end of the range the frame wraps around, as the sum of 64-bit integers in
  the loop does; and where a list that \<open>f\<close> builds has an entry out of the range, the model
  says nothing.\<close>

lemma f_wraps:
  "\<exists>rows. f (2 ^ 63 - 2) 1 1 1 3 = Some rows \<and> (- (2 ^ 63), 1, 1, 1) \<in> set rows"
  by (simp add: f_def np_array_def int64_def ABCD_def Nodes2_def ABCD_ix_def wrap64_def
      set_drop_duplicates)

lemma f_out_of_range: "f (2 ^ 63 - 1) 1 1 1 2 = None"
  by (simp add: f_def np_array_def int64_def ABCD_def)

text \<open>
  Claim C2. When \<open>k\<close> more pulls keep the four counts 64-bit integers, the table
  \<open>f(a, b, c, d, k + 1)\<close> of the enumerator has no two equal rows, its rows are exactly
  the states \<open>k\<close> pulls away from \<open>(a, b, c, d)\<close>, and their number is the binomial
  coefficient \<open>C(k + 3, 3)\<close>; \<open>num_nodes(10)\<close> prints 1, 4, 10, 20, 35, 56, 84, 120, 165,
  220.
\<close>

theorem f_layer_count:
  assumes "fits_int64 (a, b, c, d) k"
  shows "(\<exists>rows. f a b c d (int k + 1) = Some rows \<and> distinct rows
        \<and> set rows = layer (a, b, c, d) k \<and> length rows = (k + 3) choose 3)
    \<and> map (\<lambda>i. map_option length (f 1 1 1 1 (int i + 1))) [0, 1, 2, 3, 4, 5, 6, 7, 8, 9]
       = map Some [1, 4, 10, 20, 35, 56, 84, 120, 165, 220]"
proof
  from f_rows [of a b c d "int k + 1"] assms
  obtain rows where rows: "f a b c d (int k + 1) = Some rows" "distinct rows"
    "set rows = layer (a, b, c, d) k"
    by (auto simp: layer_index_Suc)
  from distinct_card [OF rows(2)] have "length rows = (k + 3) choose 3"
    by (simp add: rows(3) card_layer)
  with rows show "\<exists>rows. f a b c d (int k + 1) = Some rows \<and> distinct rows
        \<and> set rows = layer (a, b, c, d) k \<and> length rows = (k + 3) choose 3"
    by blast
next
  have len: "map_option length (f 1 1 1 1 (int i + 1)) = Some ((i + 3) choose 3)" if "i < 10" for i
  proof -
    have "fits_int64 (1, 1, 1, 1) (layer_index (int i + 1))"
      using that by (simp add: layer_index_Suc fits_int64_def int64_def)
    from f_rows [OF this]
    obtain rows where rows: "f 1 1 1 1 (int i + 1) = Some rows" "distinct rows"
      "set rows = layer (1, 1, 1, 1) i"
      by (auto simp: layer_index_Suc)
    from distinct_card [OF rows(2)] have "length rows = (i + 3) choose 3"
      by (simp add: rows(3) card_layer)
    with rows(1) show ?thesis by simp
  qed
  have "map (\<lambda>i. map_option length (f 1 1 1 1 (int i + 1))) [0, 1, 2, 3, 4, 5, 6, 7, 8, 9]
      = map (\<lambda>i. Some ((i + 3) choose 3)) [0, 1, 2, 3, 4, 5, 6, 7, 8, 9]"
    by (rule map_cong [OF refl]) (rule len, auto)
  also have "\<dots> = map Some [1, 4, 10, 20, 35, 56, 84, 120, 165, 220]"
    by code_simp
  finally show "map (\<lambda>i. map_option length (f 1 1 1 1 (int i + 1))) [0, 1, 2, 3, 4, 5, 6, 7, 8, 9]
       = map Some [1, 4, 10, 20, 35, 56, 84, 120, 165, 220]" .
qed

theorem f_layer_count_witness:
  "\<exists>rows. f 1 1 1 1 3 = Some rows \<and> distinct rows \<and> length rows = 10"
proof -
  have "fits_int64 (1, 1, 1, 1) 2" by (simp add: fits_int64_def int64_def)
  from f_layer_count [OF this, THEN conjunct1]
  obtain rows where "f 1 1 1 1 (int 2 + 1) = Some rows" "distinct rows"
    "length rows = (2 + 3) choose 3"
    by blast
  moreover have "(5::nat) choose 3 = 10" by code_simp
  ultimately show ?thesis by simp
qed

lemma layer_counts:
  assumes "s \<in> layer (a, b, c, d) k"
  shows "case s of (a', b', c', d') \<Rightarrow>
    a \<le> a' \<and> b \<le> b' \<and> c \<le> c' \<and> d \<le> d' \<and> a' + b' + c' + d' = a + b + c + d + int k"
  using assms by (auto simp: layer_def)

lemma ABCD_one_more:
  assumes "t \<in> set (ABCD s)"
  shows "case (s, t) of ((x, y, z, w), (x', y', z', w')) \<Rightarrow>
    (x' - x, y' - y, z' - z, w' - w) \<in> {(1, 0, 0, 0), (0, 1, 0, 0), (0, 0, 1, 0), (0, 0, 0, 1)}"
  using assms by (cases s) (auto simp: ABCD_def)

text \<open>
  Claim C10. From an initial state with all four counts at least 1, as long as the pulls
  keep the counts 64-bit integers: every row of a layer of the enumerator has all four
  counts at least 1, and its counts add up to the initial sum plus the number of the
  layer; the rows of the next layer are the rows \<open>A, B, C, D\<close> that the loop builds from
  the rows of this one, and each of these has exactly one count raised by 1.
\<close>

theorem f_counts_invariant:
  assumes "1 \<le> a" "1 \<le> b" "1 \<le> c" "1 \<le> d" and "fits_int64 (a, b, c, d) (Suc k)"
  shows "\<exists>rows rows'. f a b c d (int k + 1) = Some rows \<and> f a b c d (int k + 2) = Some rows'
    \<and> (\<forall>s\<in>set rows. case s of (a', b', c', d') \<Rightarrow>
            1 \<le> a' \<and> 1 \<le> b' \<and> 1 \<le> c' \<and> 1 \<le> d' \<and> a' + b' + c' + d' = a + b + c + d + int k)
    \<and> set rows' = (\<Union>s\<in>set rows. set (ABCD_ix s))
    \<and> (\<forall>s\<in>set rows. \<forall>t\<in>set (ABCD_ix s). case (s, t) of ((x, y, z, w), (x', y', z', w')) \<Rightarrow>
            (x' - x, y' - y, z' - z, w' - w) \<in> {(1, 0, 0, 0), (0, 1, 0, 0), (0, 0, 1, 0), (0, 0, 0, 1)})"
proof -
  have fits: "fits_int64 (a, b, c, d) k" using assms(5) by (rule fits_int64_mono) simp
  from f_rows [of a b c d "int k + 1"] fits
  obtain rows where rows: "f a b c d (int k + 1) = Some rows" "set rows = layer (a, b, c, d) k"
    by (auto simp: layer_index_Suc)
  have "int k + 2 = int (Suc k) + 1" by simp
  with f_rows [of a b c d "int (Suc k) + 1"] assms(5)
  obtain rows' where rows': "f a b c d (int k + 2) = Some rows'"
    "set rows' = layer (a, b, c, d) (Suc k)"
    by (auto simp: layer_index_Suc simp del: of_nat_Suc)
  have ix: "ABCD_ix s = ABCD s" if "s \<in> layer (a, b, c, d) k" for s
    using that assms(5) by (rule ABCD_ix_eq) simp
  show ?thesis
  proof (intro exI conjI ballI)
    show "f a b c d (int k + 1) = Some rows" by (rule rows(1))
    show "f a b c d (int k + 2) = Some rows'" by (rule rows'(1))
  next
    fix s assume "s \<in> set rows"
    then have "s \<in> layer (a, b, c, d) k" by (simp only: rows(2))
    from layer_counts [OF this] assms(1-4)
    show "case s of (a', b', c', d') \<Rightarrow>
            1 \<le> a' \<and> 1 \<le> b' \<and> 1 \<le> c' \<and> 1 \<le> d' \<and> a' + b' + c' + d' = a + b + c + d + int k"
      by (cases s) simp
  next
    have "(\<Union>s\<in>layer (a, b, c, d) k. set (ABCD_ix s)) = (\<Union>s\<in>layer (a, b, c, d) k. set (ABCD s))"
      by (simp add: ix)
    then show "set rows' = (\<Union>s\<in>set rows. set (ABCD_ix s))"
      by (simp only: rows(2) rows'(2) ABCD_layer)
  next
    fix s t assume "s \<in> set rows" "t \<in> set (ABCD_ix s)"
    then have "t \<in> set (ABCD s)" by (simp add: rows(2) ix)
    then show "case (s, t) of ((x, y, z, w), (x', y', z', w')) \<Rightarrow>
            (x' - x, y' - y, z' - z, w' - w) \<in> {(1, 0, 0, 0), (0, 1, 0, 0), (0, 0, 1, 0), (0, 0, 0, 1)}"
      by (rule ABCD_one_more)
  qed
qed

theorem f_counts_invariant_witness:
  "f 1 1 1 1 2 = Some [(2, 1, 1, 1), (1, 2, 1, 1), (1, 1, 2, 1), (1, 1, 1, 2)]
   \<and> (\<exists>rows'. f 1 1 1 1 3 = Some rows'
        \<and> set rows' = (\<Union>s\<in>set [(2, 1, 1, 1), (1, 2, 1, 1), (1, 1, 2, 1), (1, 1, 1, 2)]. set (ABCD_ix s)))
   \<and> list_all (\<lambda>(a', b', c', d'). 1 \<le> a' \<and> 1 \<le> b' \<and> 1 \<le> c' \<and> 1 \<le> d' \<and> a' + b' + c' + d' = 5)
        [(2, 1, 1, 1), (1, 2, 1, 1), (1, 1, 2, 1), (1, 1, 1, 2 :: int)]"
proof -
  have rows: "f 1 1 1 1 2 = Some [(2, 1, 1, 1), (1, 2, 1, 1), (1, 1, 2, 1), (1, 1, 1, 2)]"
    by (simp add: f_def ABCD_def np_array_def int64_def)
  have "fits_int64 (1, 1, 1, 1) (Suc 1)" by (simp add: fits_int64_def int64_def)
  from f_counts_invariant [OF _ _ _ _ this] rows
  obtain rows' where "f 1 1 1 1 3 = Some rows'"
    "set rows' = (\<Union>s\<in>set [(2, 1, 1, 1), (1, 2, 1, 1), (1, 1, 2, 1), (1, 1, 1, 2)]. set (ABCD_ix s))"
    "\<forall>s\<in>set [(2, 1, 1, 1), (1, 2, 1, 1), (1, 1, 2, 1), (1, 1, 1, 2)]. case s of (a', b', c', d') \<Rightarrow>
            1 \<le> a' \<and> 1 \<le> b' \<and> 1 \<le> c' \<and> 1 \<le> d' \<and> a' + b' + c' + d' = 1 + 1 + 1 + 1 + int 1"
    by auto
  with rows show ?thesis by (simp add: list_all_iff)
qed

subsection \<open>Tables and lookups\<close>

lemma those_map_Some:
  "(\<And>x. x \<in> set xs \<Longrightarrow> g x = Some (h x)) \<Longrightarrow> those (map g xs) = Some (map h xs)"
  by (induction xs) simp_all

lemma those_map_option:
  "map_option (map h) (those (map g xs)) = those (map (\<lambda>x. map_option h (g x)) xs)"
proof (induction xs)
  case Nil
  then show ?case by simp
next
  case (Cons x xs)
  show ?case
    by (cases "g x"; cases "those (map g xs)") (simp_all add: Cons.IH [symmetric])
qed

lemma filter_eq_single: "distinct xs \<Longrightarrow> A \<in> set xs \<Longrightarrow> filter (\<lambda>s. s = A) xs = [A]"
proof (induction xs)
  case Nil
  then show ?case by simp
next
  case (Cons x xs)
  show ?case
  proof (cases "x = A")
    case True
    with Cons.prems have "A \<notin> set xs" by simp
    then have "filter (\<lambda>s. s = A) xs = []" by (auto simp: filter_empty_conv)
    with True show ?thesis by simp
  next
    case False
    with Cons show ?thesis by simp
  qed
qed

lemma selection_columns04:
  "selection T A = map snd (filter (\<lambda>r. fst r = A) (columns04 T))"
  by (simp add: selection_def columns04_def filter_map comp_def)

lemma selection_found:
  assumes "columns04 T = map (\<lambda>s. (s, h s)) nodes" "distinct nodes" "A \<in> set nodes"
  shows "selection T A = [h A]"
proof -
  have "selection T A = map h (filter (\<lambda>s. s = A) nodes)"
    by (simp add: selection_columns04 assms(1) filter_map comp_def)
  then show ?thesis by (simp add: filter_eq_single [OF assms(2,3)])
qed

lemma selection_member:
  assumes "distinct (map fst T)" "A \<in> fst ` set T"
  shows "\<exists>v. selection T A = [v] \<and> v \<in> (\<lambda>r. fst (snd r)) ` set T"
  using assms
proof (induction T)
  case Nil
  then show ?case by simp
next
  case (Cons r T)
  show ?case
  proof (cases "fst r = A")
    case True
    with Cons.prems have "A \<notin> fst ` set T" by auto
    then have "filter (\<lambda>r. fst r = A) T = []" by (auto simp: filter_empty_conv)
    with True show ?thesis by (simp add: selection_def)
  next
    case False
    with Cons.prems have "distinct (map fst T)" "A \<in> fst ` set T" by auto
    from Cons.IH [OF this] obtain v where "selection T A = [v]" "v \<in> (\<lambda>r. fst (snd r)) ` set T"
      by blast
    moreover have "selection (r # T) A = selection T A" using False by (simp add: selection_def)
    ultimately show ?thesis by simp
  qed
qed

lemma ABCD_in_next: "Node \<in> layer s0 k \<Longrightarrow> set (ABCD Node) \<subseteq> layer s0 (Suc k)"
  using ABCD_layer [of s0 k] by blast

lemma np_round_unit: "0 \<le> x \<Longrightarrow> x \<le> 1 \<Longrightarrow> np_round x = (if x \<le> 1 / 2 then 0 else 1)"
proof -
  assume x: "0 \<le> x" "x \<le> 1"
  show ?thesis
  proof (cases "x = 1")
    case True
    then show ?thesis by (simp add: np_round_def)
  next
    case False
    with x have "\<lfloor>x\<rfloor> = 0" by (simp add: floor_eq_iff)
    then show ?thesis by (auto simp: np_round_def Let_def)
  qed
qed

lemma minimize_func_ends:
  "- minimize_func 1 E1 E2 E3 E4 = 1 + E1 + E2" "- minimize_func 0 E1 E2 E3 E4 = 1 + E3 + E4"
  by (simp_all add: minimize_func_def)

lemma minimize_func_affine:
  "minimize_func p E1 E2 E3 E4 = - (1 + E3 + E4) - p * ((E1 + E2) - (E3 + E4))"
  by (simp add: minimize_func_def algebra_simps)

lemma rounded_optimum:
  assumes m: "minimum_on_bounds (\<lambda>p. minimize_func p E1 E2 E3 E4) m"
    and x: "0 \<le> x" "x \<le> 1" "\<bar>x - m\<bar> < 1 / 2"
  shows "- minimize_func (np_round x) E1 E2 E3 E4
       = max (- minimize_func 1 E1 E2 E3 E4) (- minimize_func 0 E1 E2 E3 E4)"
proof -
  let ?D = "(E1 + E2) - (E3 + E4)"
  have m01: "0 \<le> m" "m \<le> 1"
    and le: "\<And>p. 0 \<le> p \<Longrightarrow> p \<le> 1 \<Longrightarrow> p * ?D \<le> m * ?D"
    using m by (auto simp: minimum_on_bounds_def minimize_func_affine)
  consider "?D = 0" | "0 < ?D" | "?D < 0" by linarith
  then show ?thesis
  proof cases
    case 1
    then show ?thesis
      using x by (simp add: np_round_unit minimize_func_ends)
  next
    case 2
    from le [of 1] have "1 * ?D \<le> m * ?D" by simp
    with 2 have "1 \<le> m" by (simp only: mult_le_cancel_right_pos) 
    with m01 x have "1 / 2 < x" by simp
    with x have "np_round x = 1" by (simp add: np_round_unit)
    with 2 show ?thesis by (simp add: minimize_func_ends)
  next
    case 3
    from le [of 0] have "0 \<le> m * ?D" by simp
    with 3 m01 have "m = 0" by (simp add: zero_le_mult_iff)
    with x have "x < 1 / 2" by simp
    with x have "np_round x = 0" by (simp add: np_round_unit)
    with 3 show ?thesis by (simp add: minimize_func_ends)
  qed
qed

subsection \<open>The optimizer\<close>

lemma in_bounds_endpoint_minimizer: "in_bounds endpoint_minimizer"
  by (simp add: in_bounds_def endpoint_minimizer_def)

lemma finds_minimum_endpoint_minimizer: "finds_minimum endpoint_minimizer"
  unfolding finds_minimum_def
proof (intro allI)
  fix E1 E2 E3 E4 :: real
  let ?g = "\<lambda>p. minimize_func p E1 E2 E3 E4"
  let ?D = "(E1 + E2) - (E3 + E4)"
  have "minimum_on_bounds ?g (endpoint_minimizer ?g)"
  proof (cases "0 \<le> ?D")
    case True
    then have m: "endpoint_minimizer ?g = 1"
      by (simp add: endpoint_minimizer_def minimize_func_affine)
    have "?g 1 \<le> ?g p" if "0 \<le> p" "p \<le> 1" for p
    proof -
      have "p * ?D \<le> 1 * ?D" using that True by (intro mult_right_mono) simp_all
      then show ?thesis unfolding minimize_func_affine by linarith
    qed
    then show ?thesis by (simp add: minimum_on_bounds_def m)
  next
    case False
    then have m: "endpoint_minimizer ?g = 0"
      by (simp add: endpoint_minimizer_def minimize_func_affine)
    have "?g 0 \<le> ?g p" if "0 \<le> p" "p \<le> 1" for p
    proof -
      have "p * ?D \<le> 0" using that False by (simp add: mult_le_0_iff)
      then show ?thesis unfolding minimize_func_affine by linarith
    qed
    then show ?thesis by (simp add: minimum_on_bounds_def m)
  qed
  then show "\<exists>m. minimum_on_bounds ?g m \<and> \<bar>endpoint_minimizer ?g - m\<bar> < 1 / 2"
    by (intro exI [of _ "endpoint_minimizer ?g"]) simp
qed

lemma rounded_minimize_scalar:
  assumes "in_bounds minimize_scalar" "finds_minimum minimize_scalar"
  shows "- minimize_func (np_round (minimize_scalar (\<lambda>p. minimize_func p E1 E2 E3 E4))) E1 E2 E3 E4
      = max (- minimize_func 1 E1 E2 E3 E4) (- minimize_func 0 E1 E2 E3 E4)"
proof -
  let ?g = "\<lambda>p. minimize_func p E1 E2 E3 E4"
  from assms(2) obtain m where "minimum_on_bounds ?g m" "\<bar>minimize_scalar ?g - m\<bar> < 1 / 2"
    unfolding finds_minimum_def by blast
  moreover have "0 \<le> minimize_scalar ?g" "minimize_scalar ?g \<le> 1"
    using assms(1) by (simp_all add: in_bounds_def)
  ultimately show ?thesis by (intro rounded_optimum)
qed

subsection \<open>The final layer\<close>

lemma E_1_E_2_eq:
  assumes "float_exact x1" "float_exact y1" "float_exact x2" "float_exact y2"
    and "x1 + y1 \<noteq> 0" "x2 + y2 \<noteq> 0"
  shows "E_1_E_2 (x1, y1, x2, y2)
     = Some (real_of_int x1 / real_of_int (x1 + y1), real_of_int x2 / real_of_int (x2 + y2))"
  using assms by (simp add: E_1_E_2_def np_divide_def)

lemma Final_row_eq:
  assumes "float_exact x1" "float_exact y1" "float_exact x2" "float_exact y2"
    and "x1 + y1 \<noteq> 0" "x2 + y2 \<noteq> 0"
  shows "Final_row (x1, y1, x2, y2)
     = Some ((x1, y1, x2, y2),
         max (real_of_int x1 / real_of_int (x1 + y1)) (real_of_int x2 / real_of_int (x2 + y2)), None)"
  by (simp add: Final_row_def E_1_E_2_eq [OF assms])

lemma f_rows_float:
  assumes "fits_float (a, b, c, d) (layer_index n)"
  shows "\<exists>rows. f a b c d n = Some rows \<and> distinct rows
    \<and> set rows = layer (a, b, c, d) (layer_index n)"
  using assms by (intro f_rows fits_float_int64)

lemma Final_Nodes_eq:
  assumes "1 \<le> a1 + b1" "1 \<le> a2 + b2" and "fits_float (a1, b1, a2, b2) (layer_index N)"
  shows "\<exists>rows. f a1 b1 a2 b2 N = Some rows \<and> distinct rows
    \<and> set rows = layer (a1, b1, a2, b2) (layer_index N)
    \<and> Final_Nodes a1 b1 a2 b2 N
      = Some (map (\<lambda>(x1, y1, x2, y2). ((x1, y1, x2, y2),
           max (real_of_int x1 / real_of_int (x1 + y1)) (real_of_int x2 / real_of_int (x2 + y2)), None))
         rows)"
proof -
  from f_rows_float [OF assms(3)]
  obtain rows where rows: "f a1 b1 a2 b2 N = Some rows" "distinct rows"
    "set rows = layer (a1, b1, a2, b2) (layer_index N)"
    by blast
  have "those (map Final_row rows)
      = Some (map (\<lambda>(x1, y1, x2, y2). ((x1, y1, x2, y2),
           max (real_of_int x1 / real_of_int (x1 + y1)) (real_of_int x2 / real_of_int (x2 + y2)), None))
         rows)"
  proof (rule those_map_Some)
    fix s assume "s \<in> set rows"
    then have s: "s \<in> layer (a1, b1, a2, b2) (layer_index N)" by (simp only: rows(3))
    obtain x1 y1 x2 y2 where f: "s = (x1, y1, x2, y2)" by (cases s)
    from layer_float_exact [OF s assms(3)] layer_counts [OF s] assms(1,2)
    have "float_exact x1" "float_exact y1" "float_exact x2" "float_exact y2"
      "x1 + y1 \<noteq> 0" "x2 + y2 \<noteq> 0"
      by (auto simp: f)
    from Final_row_eq [OF this]
    show "Final_row s = Some (case s of (x1, y1, x2, y2) \<Rightarrow> ((x1, y1, x2, y2),
           max (real_of_int x1 / real_of_int (x1 + y1)) (real_of_int x2 / real_of_int (x2 + y2)), None))"
      by (simp add: f)
  qed
  with rows show ?thesis by (simp add: Final_Nodes_def)
qed

text \<open>
  Claim C3. For every run whose two machines have positive totals \<open>a1 + b1\<close> and
  \<open>a2 + b2\<close> (all runs from counts of at least 1 are such) and whose counts stay below
  \<open>2^53\<close> in size up to the final layer, the first loop of \<open>Bernoulli_Bandit\<close> gives every
  row \<open>(x1, y1, x2, y2)\<close> of the final layer the value
  \<open>max (x1 / (x1 + y1)) (x2 / (x2 + y2))\<close>; for the row \<open>(3, 1, 1, 1)\<close> it is \<open>3/4\<close>.
\<close>

theorem Final_Nodes_greedy:
  assumes "1 \<le> a1 + b1" "1 \<le> a2 + b2" and "fits_float (a1, b1, a2, b2) (layer_index N)"
  shows "(\<exists>rows. f a1 b1 a2 b2 N = Some rows
      \<and> Final_Nodes a1 b1 a2 b2 N
        = Some (map (\<lambda>(x1, y1, x2, y2). ((x1, y1, x2, y2),
             max (real_of_int x1 / real_of_int (x1 + y1)) (real_of_int x2 / real_of_int (x2 + y2)), None))
           rows))
    \<and> Final_row (3, 1, 1, 1) = Some ((3, 1, 1, 1), 3 / 4, None)"
proof
  from Final_Nodes_eq [OF assms]
  show "\<exists>rows. f a1 b1 a2 b2 N = Some rows
      \<and> Final_Nodes a1 b1 a2 b2 N
        = Some (map (\<lambda>(x1, y1, x2, y2). ((x1, y1, x2, y2),
             max (real_of_int x1 / real_of_int (x1 + y1)) (real_of_int x2 / real_of_int (x2 + y2)), None))
           rows)"
    by blast
  show "Final_row (3, 1, 1, 1) = Some ((3, 1, 1, 1), 3 / 4, None)"
    by (simp add: Final_row_eq float_exact_def)
qed

theorem Final_Nodes_greedy_witness:
  "Final_Nodes 3 1 1 1 1 = Some [((3, 1, 1, 1), 3 / 4, None)]
   \<and> Final_Nodes 1 1 1 1 2 = Some [((2, 1, 1, 1), 2 / 3, None), ((1, 2, 1, 1), 1 / 2, None),
        ((1, 1, 2, 1), 2 / 3, None), ((1, 1, 1, 2), 1 / 2, None)]"
proof -
  have "f 3 1 1 1 1 = Some [(3, 1, 1, 1)]"
    and "f 1 1 1 1 2 = Some [(2, 1, 1, 1), (1, 2, 1, 1), (1, 1, 2, 1), (1, 1, 1, 2)]"
    by (simp_all add: f_def ABCD_def np_array_def int64_def)
  moreover have "fits_float (3, 1, 1, 1) (layer_index 1)" "fits_float (1, 1, 1, 1) (layer_index 2)"
    by (simp_all add: fits_float_def float_exact_def layer_index_def)
  ultimately show ?thesis
    using Final_Nodes_greedy [of 3 1 1 1 1, THEN conjunct1]
      Final_Nodes_greedy [of 1 1 1 1 2, THEN conjunct1]
    by auto
qed

subsection \<open>One pass of the backward loop\<close>

lemma those_map_ex:
  assumes "\<And>x. x \<in> set xs \<Longrightarrow> \<exists>y. g x = Some y \<and> P x y"
  shows "\<exists>ys. those (map g xs) = Some ys \<and> list_all2 P xs ys"
  using assms
proof (induction xs)
  case Nil
  then show ?case by simp
next
  case (Cons x xs)
  from Cons.prems [of x] obtain y where y: "g x = Some y" "P x y" by auto
  from Cons.IH Cons.prems obtain ys where "those (map g xs) = Some ys" "list_all2 P xs ys"
    by auto
  with y show ?case by simp
qed

lemma ABCD_members:
  "set (ABCD (a, b, c, d)) \<subseteq> S \<Longrightarrow>
    (a + 1, b, c, d) \<in> S \<and> (a, b + 1, c, d) \<in> S \<and> (a, b, c + 1, d) \<in> S \<and> (a, b, c, d + 1) \<in> S"
  by (simp add: ABCD_def)

lemma layer_guard:
  assumes "s \<in> layer s0 j" "fits_float s0 k" "j < k"
  shows "case s of (a, b, c, d) \<Rightarrow> list_all float_exact [a, a + 1, b, b + 1, c, c + 1, d, d + 1]"
  using layer_float_exact [OF assms(1,2)] layer_float_exact_next [OF assms] assms(3)
  by (cases s) simp

lemma Previous_row_total:
  assumes "distinct (map fst T)" "set (ABCD Node) \<subseteq> fst ` set T"
    and "case Node of (a, b, c, d) \<Rightarrow> list_all float_exact [a, a + 1, b, b + 1, c, c + 1, d, d + 1]"
  shows "\<exists>E1 E2 E3 E4.
      E1 \<in> (\<lambda>r. fst (snd r)) ` set T \<and> E2 \<in> (\<lambda>r. fst (snd r)) ` set T
    \<and> E3 \<in> (\<lambda>r. fst (snd r)) ` set T \<and> E4 \<in> (\<lambda>r. fst (snd r)) ` set T
    \<and> Previous_row minimize_scalar T Node
        = Some (Node,
            - minimize_func (np_round (minimize_scalar (\<lambda>p. minimize_func p E1 E2 E3 E4))) E1 E2 E3 E4,
            Some (np_round (minimize_scalar (\<lambda>p. minimize_func p E1 E2 E3 E4))))"
proof (cases Node)
  case (fields a b c d)
  from ABCD_members [OF assms(2) [unfolded fields]]
  have "(a + 1, b, c, d) \<in> fst ` set T" "(a, b + 1, c, d) \<in> fst ` set T"
    "(a, b, c + 1, d) \<in> fst ` set T" "(a, b, c, d + 1) \<in> fst ` set T"
    by simp_all
  from this [THEN selection_member [OF assms(1)]]
  obtain E1 E2 E3 E4 where
    "selection T (a + 1, b, c, d) = [E1]" "E1 \<in> (\<lambda>r. fst (snd r)) ` set T"
    "selection T (a, b + 1, c, d) = [E2]" "E2 \<in> (\<lambda>r. fst (snd r)) ` set T"
    "selection T (a, b, c + 1, d) = [E3]" "E3 \<in> (\<lambda>r. fst (snd r)) ` set T"
    "selection T (a, b, c, d + 1) = [E4]" "E4 \<in> (\<lambda>r. fst (snd r)) ` set T"
    by blast
  with assms(3) show ?thesis
    by (intro exI [of _ E1] exI [of _ E2] exI [of _ E3] exI [of _ E4])
       (simp add: Previous_row_def fields Let_def)
qed

lemma layer_index_next: "1 \<le> n \<Longrightarrow> layer_index (n + 1) = Suc (layer_index n)"
  by (auto simp: layer_index_def)

lemma Previous_Nodes_Func_total:
  assumes "1 \<le> n" "fits_float (a, b, c, d) (layer_index (n + 1))"
    and "f a b c d (n + 1) = Some rows'" "map fst T = rows'"
  shows "\<exists>rows T'. f a b c d n = Some rows \<and> Previous_Nodes_Func minimize_scalar a b c d n T = Some T'
    \<and> list_all2 (\<lambda>Node r. \<exists>E1 E2 E3 E4.
          (E1 \<in> (\<lambda>r. fst (snd r)) ` set T \<and> E2 \<in> (\<lambda>r. fst (snd r)) ` set T
        \<and> E3 \<in> (\<lambda>r. fst (snd r)) ` set T \<and> E4 \<in> (\<lambda>r. fst (snd r)) ` set T)
        \<and> r = (Node,
            - minimize_func (np_round (minimize_scalar (\<lambda>p. minimize_func p E1 E2 E3 E4))) E1 E2 E3 E4,
            Some (np_round (minimize_scalar (\<lambda>p. minimize_func p E1 E2 E3 E4)))))
        rows T'"
proof -
  let ?s0 = "(a, b, c, d)"
  let ?k = "layer_index n"
  have next_k: "layer_index (n + 1) = Suc ?k" using assms(1) by (rule layer_index_next)
  from f_rows_float [OF assms(2)] assms(3)
  have rows': "distinct rows'" "set rows' = layer ?s0 (Suc ?k)"
    by (auto simp: next_k)
  have "fits_float ?s0 ?k" using assms(2) by (rule fits_float_mono) (simp add: next_k)
  from f_rows_float [OF this]
  obtain rows where rows: "f a b c d n = Some rows" "set rows = layer ?s0 ?k"
    by blast
  have "\<exists>T'. those (map (Previous_row minimize_scalar T) rows) = Some T'
    \<and> list_all2 (\<lambda>Node r. \<exists>E1 E2 E3 E4.
          (E1 \<in> (\<lambda>r. fst (snd r)) ` set T \<and> E2 \<in> (\<lambda>r. fst (snd r)) ` set T
        \<and> E3 \<in> (\<lambda>r. fst (snd r)) ` set T \<and> E4 \<in> (\<lambda>r. fst (snd r)) ` set T)
        \<and> r = (Node,
            - minimize_func (np_round (minimize_scalar (\<lambda>p. minimize_func p E1 E2 E3 E4))) E1 E2 E3 E4,
            Some (np_round (minimize_scalar (\<lambda>p. minimize_func p E1 E2 E3 E4)))))
        rows T'"
  proof (rule those_map_ex)
    fix Node assume "Node \<in> set rows"
    then have Node: "Node \<in> layer ?s0 ?k" by (simp only: rows(2))
    from ABCD_in_next [OF this] have sub: "set (ABCD Node) \<subseteq> fst ` set T"
      using rows'(2) assms(4) by (metis set_map)
    have dist: "distinct (map fst T)" by (simp add: assms(4) rows'(1))
    have guard: "case Node of (a, b, c, d) \<Rightarrow>
        list_all float_exact [a, a + 1, b, b + 1, c, c + 1, d, d + 1]"
      using Node assms(2) by (rule layer_guard) (simp add: next_k)
    from Previous_row_total [OF dist sub guard, of minimize_scalar]
    show "\<exists>r. Previous_row minimize_scalar T Node = Some r \<and> (\<exists>E1 E2 E3 E4.
          (E1 \<in> (\<lambda>r. fst (snd r)) ` set T \<and> E2 \<in> (\<lambda>r. fst (snd r)) ` set T
        \<and> E3 \<in> (\<lambda>r. fst (snd r)) ` set T \<and> E4 \<in> (\<lambda>r. fst (snd r)) ` set T)
        \<and> r = (Node,
            - minimize_func (np_round (minimize_scalar (\<lambda>p. minimize_func p E1 E2 E3 E4))) E1 E2 E3 E4,
            Some (np_round (minimize_scalar (\<lambda>p. minimize_func p E1 E2 E3 E4)))))"
      by blast
  qed
  with rows(1) show ?thesis by (simp add: Previous_Nodes_Func_def)
qed

lemma list_all2_fst:
  "list_all2 (\<lambda>x r. \<exists>E1 E2 E3 E4. P E1 E2 E3 E4 \<and> r = (x, h E1 E2 E3 E4)) xs T \<Longrightarrow> map fst T = xs"
  by (induction xs T rule: list_all2_induct) auto

lemma Previous_Nodes_Func_states:
  assumes "1 \<le> n" "fits_float (a, b, c, d) (layer_index (n + 1))"
    and "f a b c d (n + 1) = Some rows'" "map fst T = rows'"
  shows "\<exists>rows T'. f a b c d n = Some rows
    \<and> Previous_Nodes_Func minimize_scalar a b c d n T = Some T' \<and> map fst T' = rows"
proof -
  from Previous_Nodes_Func_total [OF assms, of minimize_scalar]
  obtain rows T' where T': "f a b c d n = Some rows"
    "Previous_Nodes_Func minimize_scalar a b c d n T = Some T'"
    and all2: "list_all2 (\<lambda>Node r. \<exists>E1 E2 E3 E4.
          (E1 \<in> (\<lambda>r. fst (snd r)) ` set T \<and> E2 \<in> (\<lambda>r. fst (snd r)) ` set T
        \<and> E3 \<in> (\<lambda>r. fst (snd r)) ` set T \<and> E4 \<in> (\<lambda>r. fst (snd r)) ` set T)
        \<and> r = (Node,
            - minimize_func (np_round (minimize_scalar (\<lambda>p. minimize_func p E1 E2 E3 E4))) E1 E2 E3 E4,
            Some (np_round (minimize_scalar (\<lambda>p. minimize_func p E1 E2 E3 E4)))))
        rows T'"
    by blast
  from list_all2_fst [OF all2] T' show ?thesis by simp
qed

lemma backward_snoc:
  "backward minimize_scalar a b c d (js @ [j]) T
   = Option.bind (backward minimize_scalar a b c d js T) (Previous_Nodes_Func minimize_scalar a b c d j)"
proof (induction js arbitrary: T)
  case Nil
  show ?case
    by (cases "Previous_Nodes_Func minimize_scalar a b c d j T") simp_all
next
  case (Cons j' js)
  then show ?case
    by (cases "Previous_Nodes_Func minimize_scalar a b c d j' T") simp_all
qed

lemma rev_upto_step: "i < N \<Longrightarrow> rev [i..N - 1] = rev [i + 1..N - 1] @ [i]"
  by (simp add: upto_rec1 [of i "N - 1"])

lemma backward_invariant:
  assumes fits: "fits_float (a, b, c, d) (layer_index N)"
    and base: "f a b c d N = Some rows0" "map fst T0 = rows0" "Q N T0"
    and step: "\<And>n T T' rows'. 1 \<le> n \<Longrightarrow> n < N \<Longrightarrow> f a b c d (n + 1) = Some rows'
        \<Longrightarrow> map fst T = rows' \<Longrightarrow> Q (n + 1) T
        \<Longrightarrow> Previous_Nodes_Func minimize_scalar a b c d n T = Some T' \<Longrightarrow> Q n T'"
    and i: "1 \<le> i" "i \<le> N"
  shows "\<exists>rows T. f a b c d i = Some rows
    \<and> backward minimize_scalar a b c d (rev [i..N - 1]) T0 = Some T
    \<and> map fst T = rows \<and> Q i T"
  using i
proof (induction k \<equiv> "nat (N - i)" arbitrary: i)
  case 0
  then have "i = N" by simp
  with base show ?case by simp
next
  case (Suc k)
  then have less: "i < N" and k: "k = nat (N - (i + 1))" by simp_all
  from Suc.hyps(1) [OF k] Suc.prems less
  obtain rows' T where T: "f a b c d (i + 1) = Some rows'"
    "backward minimize_scalar a b c d (rev [i + 1..N - 1]) T0 = Some T"
    "map fst T = rows'" "Q (i + 1) T"
    by auto
  have "layer_index (i + 1) \<le> layer_index N"
    using Suc.prems(1) less by (simp add: layer_index_def)
  with fits have "fits_float (a, b, c, d) (layer_index (i + 1))" by (rule fits_float_mono)
  from Previous_Nodes_Func_states [OF Suc.prems(1) this T(1,3), of minimize_scalar]
  obtain rows T' where T': "f a b c d i = Some rows"
    "Previous_Nodes_Func minimize_scalar a b c d i T = Some T'" "map fst T' = rows"
    by blast
  from step [OF Suc.prems(1) less T(1,3,4) T'(2)] have "Q i T'" .
  with T T' show ?case
    by (simp add: rev_upto_step [OF less] backward_snoc)
qed

subsection \<open>The whole run\<close>

lemma Final_Nodes_states:
  assumes "1 \<le> a1 + b1" "1 \<le> a2 + b2" and "fits_float (a1, b1, a2, b2) (layer_index N)"
  shows "\<exists>rows T0. f a1 b1 a2 b2 N = Some rows \<and> Final_Nodes a1 b1 a2 b2 N = Some T0
    \<and> map fst T0 = rows
    \<and> columns04 T0 = map (\<lambda>s. (s, stored_value 0 s)) rows
    \<and> (\<forall>r\<in>set T0. snd (snd r) = None)"
proof -
  from Final_Nodes_eq [OF assms]
  obtain rows where rows: "f a1 b1 a2 b2 N = Some rows"
    "Final_Nodes a1 b1 a2 b2 N
      = Some (map (\<lambda>(x1, y1, x2, y2). ((x1, y1, x2, y2),
           max (real_of_int x1 / real_of_int (x1 + y1)) (real_of_int x2 / real_of_int (x2 + y2)), None))
         rows)"
    by blast
  show ?thesis
    unfolding rows
    by (intro exI conjI refl)
       (auto simp: columns04_def comp_def case_prod_beta intro!: map_idI)
qed

lemma Bernoulli_Bandit_short: "N \<le> 1 \<Longrightarrow> Bernoulli_Bandit minimize_scalar a1 b1 a2 b2 N = Final_Nodes a1 b1 a2 b2 N"
  by (cases "Final_Nodes a1 b1 a2 b2 N") (simp_all add: Bernoulli_Bandit_def)

lemma np_array_rows: "np_array rows = Some rows' \<Longrightarrow> rows' = rows"
  by (simp add: np_array_def split: if_splits)

lemma f_0: "N < 1 \<Longrightarrow> f a b c d N = Some rows \<Longrightarrow> rows = ABCD (a, b, c, d)"
  by (auto simp: f_def dest: np_array_rows)

lemma f_1: "f a b c d 1 = Some rows \<Longrightarrow> rows = [(a, b, c, d)]"
  by (auto simp: f_def dest: np_array_rows)

lemma f_2: "f a b c d 2 = Some rows \<Longrightarrow> rows = ABCD (a, b, c, d)"
  by (auto simp: f_def dest: np_array_rows)

lemma Bernoulli_Bandit_total:
  assumes "1 \<le> a1 + b1" "1 \<le> a2 + b2" and fits: "fits_float (a1, b1, a2, b2) (layer_index N)"
  shows "\<exists>T. Bernoulli_Bandit minimize_scalar a1 b1 a2 b2 N = Some T
    \<and> map fst T = (if N < 1 then ABCD (a1, b1, a2, b2) else [(a1, b1, a2, b2)])"
proof -
  from Final_Nodes_states [OF assms, of]
  obtain rows0 T0 where T0: "f a1 b1 a2 b2 N = Some rows0" "Final_Nodes a1 b1 a2 b2 N = Some T0"
    "map fst T0 = rows0"
    by blast
  show ?thesis
  proof (cases "N < 1")
    case True
    with T0 f_0 [OF True T0(1)] show ?thesis by (simp add: Bernoulli_Bandit_short)
  next
    case False
    then have N: "1 \<le> N" by simp
    from backward_invariant [of a1 b1 a2 b2 N rows0 T0 "\<lambda>n T. True" minimize_scalar 1,
        OF fits T0(1,3)] N
    obtain rows T where "f a1 b1 a2 b2 1 = Some rows"
      "backward minimize_scalar a1 b1 a2 b2 (rev [1..N - 1]) T0 = Some T" "map fst T = rows"
      by auto
    with T0 False f_1 show ?thesis by (simp add: Bernoulli_Bandit_def)
  qed
qed

text \<open>
  Claim C8, as the notebook has it. \<open>Bernoulli_Bandit\<close> checks nothing and has no error
  result. For every \<open>N\<close>, also below 1, and all counts with positive totals \<open>a1 + b1\<close> and
  \<open>a2 + b2\<close>, also counts below 1, that stay below \<open>2^53\<close> in size up to the final layer, it
  returns a table: for \<open>N < 1\<close> the rows \<open>A, B, C, D\<close> of the initial state, otherwise the
  row of the initial state; for \<open>N \<le> 1\<close> the table is the greedily valued final layer.
\<close>

theorem Bernoulli_Bandit_rejects_nothing:
  assumes "1 \<le> a1 + b1" "1 \<le> a2 + b2" and "fits_float (a1, b1, a2, b2) (layer_index N)"
  shows "(\<exists>T. Bernoulli_Bandit minimize_scalar a1 b1 a2 b2 N = Some T
      \<and> map fst T = (if N < 1 then ABCD (a1, b1, a2, b2) else [(a1, b1, a2, b2)]))
    \<and> (N \<le> 1 \<longrightarrow> Bernoulli_Bandit minimize_scalar a1 b1 a2 b2 N = Final_Nodes a1 b1 a2 b2 N)"
  using Bernoulli_Bandit_total [OF assms] by (simp add: Bernoulli_Bandit_short)

theorem Bernoulli_Bandit_rejects_nothing_witness:
  "(\<exists>T. Bernoulli_Bandit endpoint_minimizer 0 1 1 1 (- 3) = Some T
      \<and> map fst T = [(1, 1, 1, 1), (0, 2, 1, 1), (0, 1, 2, 1), (0, 1, 1, 2)])
   \<and> Bernoulli_Bandit endpoint_minimizer 0 1 1 1 (- 3) = Final_Nodes 0 1 1 1 (- 3)"
proof -
  have h: "(1::int) \<le> 0 + 1" "(1::int) \<le> 1 + 1" "fits_float (0, 1, 1, 1) (layer_index (- 3))"
    by (simp_all add: fits_float_def float_exact_def layer_index_def)
  note t = Bernoulli_Bandit_rejects_nothing [OF h, of endpoint_minimizer]
  from t [THEN conjunct1]
  have "\<exists>T. Bernoulli_Bandit endpoint_minimizer 0 1 1 1 (- 3) = Some T
      \<and> map fst T = [(1, 1, 1, 1), (0, 2, 1, 1), (0, 1, 2, 1), (0, 1, 1, 2)]"
    by (simp add: ABCD_def)
  moreover from t [THEN conjunct2]
  have "Bernoulli_Bandit endpoint_minimizer 0 1 1 1 (- 3) = Final_Nodes 0 1 1 1 (- 3)"
    by simp
  ultimately show ?thesis by (rule conjI)
qed

text \<open>Against claim C8 as stated: with \<open>N = 0\<close>, and with a count of 0, the run returns a
  table.\<close>

theorem Bernoulli_Bandit_accepts_invalid_input:
  "Bernoulli_Bandit endpoint_minimizer 1 1 1 1 0
     = Some [((2, 1, 1, 1), 2 / 3, None), ((1, 2, 1, 1), 1 / 2, None),
        ((1, 1, 2, 1), 2 / 3, None), ((1, 1, 1, 2), 1 / 2, None)]
   \<and> Bernoulli_Bandit endpoint_minimizer 0 1 1 1 1 = Some [((0, 1, 1, 1), 1 / 2, None)]"
  by (simp add: Bernoulli_Bandit_def Final_Nodes_def Final_row_def E_1_E_2_def np_divide_def
      f_def ABCD_def np_array_def int64_def float_exact_def)

lemma np_round_01: "0 \<le> x \<Longrightarrow> x \<le> 1 \<Longrightarrow> np_round x = 0 \<or> np_round x = 1"
  by (simp add: np_round_unit)

lemma Final_Nodes_nonneg:
  assumes "1 \<le> a1" "1 \<le> b1" "1 \<le> a2" "1 \<le> b2"
    and fits: "fits_float (a1, b1, a2, b2) (layer_index N)"
    and "Final_Nodes a1 b1 a2 b2 N = Some T0" "r \<in> set T0"
  shows "0 \<le> fst (snd r)"
proof -
  have tot: "1 \<le> a1 + b1" "1 \<le> a2 + b2" using assms(1-4) by simp_all
  from Final_Nodes_eq [OF tot fits] assms(6,7)
  obtain rows s where s: "set rows = layer (a1, b1, a2, b2) (layer_index N)" "s \<in> set rows"
    and r: "r = (case s of (x1, y1, x2, y2) \<Rightarrow> ((x1, y1, x2, y2),
         max (real_of_int x1 / real_of_int (x1 + y1)) (real_of_int x2 / real_of_int (x2 + y2)), None))"
    by auto
  from s have "s \<in> layer (a1, b1, a2, b2) (layer_index N)" by simp
  from layer_counts [OF this] assms(1-4) r show ?thesis
    by (cases s) (auto simp: le_max_iff_disj)
qed

lemma list_all2_memberD: "list_all2 P xs ys \<Longrightarrow> y \<in> set ys \<Longrightarrow> \<exists>x. P x y"
  by (induction rule: list_all2_induct) auto

lemma Previous_Nodes_Func_nonneg:
  assumes "in_bounds minimize_scalar" "1 \<le> n" "fits_float (a, b, c, d) (layer_index (n + 1))"
    and "f a b c d (n + 1) = Some rows'" "map fst T = rows'"
    and "\<forall>r\<in>set T. 0 \<le> fst (snd r)"
    and "Previous_Nodes_Func minimize_scalar a b c d n T = Some T'" "r \<in> set T'"
  shows "0 \<le> fst (snd r) \<and> (snd (snd r) = Some 0 \<or> snd (snd r) = Some 1)"
proof -
  from Previous_Nodes_Func_total [OF assms(2-5), of minimize_scalar] assms(7)
  obtain rows where "list_all2 (\<lambda>Node r. \<exists>E1 E2 E3 E4.
          (E1 \<in> (\<lambda>r. fst (snd r)) ` set T \<and> E2 \<in> (\<lambda>r. fst (snd r)) ` set T
        \<and> E3 \<in> (\<lambda>r. fst (snd r)) ` set T \<and> E4 \<in> (\<lambda>r. fst (snd r)) ` set T)
        \<and> r = (Node,
            - minimize_func (np_round (minimize_scalar (\<lambda>p. minimize_func p E1 E2 E3 E4))) E1 E2 E3 E4,
            Some (np_round (minimize_scalar (\<lambda>p. minimize_func p E1 E2 E3 E4)))))
        rows T'"
    by auto
  from list_all2_memberD [OF this assms(8)] obtain Node E1 E2 E3 E4 where
    E: "E1 \<in> (\<lambda>r. fst (snd r)) ` set T" "E2 \<in> (\<lambda>r. fst (snd r)) ` set T"
       "E3 \<in> (\<lambda>r. fst (snd r)) ` set T" "E4 \<in> (\<lambda>r. fst (snd r)) ` set T"
    and r: "r = (Node,
            - minimize_func (np_round (minimize_scalar (\<lambda>p. minimize_func p E1 E2 E3 E4))) E1 E2 E3 E4,
            Some (np_round (minimize_scalar (\<lambda>p. minimize_func p E1 E2 E3 E4))))"
    by blast
  let ?x = "minimize_scalar (\<lambda>p. minimize_func p E1 E2 E3 E4)"
  from E assms(6) have pos: "0 \<le> E1" "0 \<le> E2" "0 \<le> E3" "0 \<le> E4" by auto
  have "0 \<le> ?x" "?x \<le> 1" using assms(1) by (simp_all add: in_bounds_def)
  from np_round_01 [OF this] show ?thesis
  proof
    assume "np_round ?x = 0"
    with pos r show ?thesis using minimize_func_ends(2) [of E1 E2 E3 E4] by simp
  next
    assume "np_round ?x = 1"
    with pos r show ?thesis using minimize_func_ends(1) [of E1 E2 E3 E4] by simp
  qed
qed

text \<open>
  Claim C7, as the notebook has it. For counts of at least 1 that stay below \<open>2^53\<close> up
  to the final layer, \<open>N \<ge> 1\<close> and an optimizer that stays within its bounds, the table
  returned by \<open>Bernoulli_Bandit\<close> has one row, that of the initial state, and its value is
  not negative. For \<open>N \<ge> 2\<close> column 5 of the row is the rounded point of the optimizer, 1
  for machine 1 and 0 for machine 2; for \<open>N = 1\<close> the table has no column 5.
\<close>

theorem Bernoulli_Bandit_row:
  assumes "1 \<le> a1" "1 \<le> b1" "1 \<le> a2" "1 \<le> b2" "1 \<le> N" "in_bounds minimize_scalar"
    and "fits_float (a1, b1, a2, b2) (nat (N - 1))"
  shows "\<exists>v c. Bernoulli_Bandit minimize_scalar a1 b1 a2 b2 N = Some [((a1, b1, a2, b2), v, c)]
    \<and> 0 \<le> v \<and> (if N = 1 then c = None else c = Some 0 \<or> c = Some 1)"
proof -
  have tot: "1 \<le> a1 + b1" "1 \<le> a2 + b2" using assms(1-4) by simp_all
  have fits: "fits_float (a1, b1, a2, b2) (layer_index N)"
    using assms(5,7) by (simp add: layer_index_pos)
  from Final_Nodes_states [OF tot fits]
  obtain rows0 T0 where T0: "f a1 b1 a2 b2 N = Some rows0" "Final_Nodes a1 b1 a2 b2 N = Some T0"
    "map fst T0 = rows0" "\<forall>r\<in>set T0. snd (snd r) = None"
    by blast
  let ?Q = "\<lambda>n T. (\<forall>r\<in>set T. 0 \<le> fst (snd r))
      \<and> (\<forall>r\<in>set T. if N = n then snd (snd r) = None else snd (snd r) = Some 0 \<or> snd (snd r) = Some 1)"
  have base: "?Q N T0"
    using Final_Nodes_nonneg [OF assms(1-4) fits T0(2)] T0(4) by simp
  have "\<exists>rows T. f a1 b1 a2 b2 1 = Some rows
    \<and> backward minimize_scalar a1 b1 a2 b2 (rev [1..N - 1]) T0 = Some T
    \<and> map fst T = rows \<and> ?Q 1 T"
  proof (rule backward_invariant [where Q = ?Q])
    show "fits_float (a1, b1, a2, b2) (layer_index N)" by (rule fits)
    show "f a1 b1 a2 b2 N = Some rows0" by (rule T0(1))
    show "map fst T0 = rows0" by (rule T0(3))
    show "?Q N T0" by (rule base)
    show "(1::int) \<le> 1" by simp
    show "1 \<le> N" by (rule assms(5))
  next
    fix n T T' rows'
    assume n: "1 \<le> n" "n < N" and rows': "f a1 b1 a2 b2 (n + 1) = Some rows'" "map fst T = rows'"
      and Q: "?Q (n + 1) T"
      and T': "Previous_Nodes_Func minimize_scalar a1 b1 a2 b2 n T = Some T'"
    have "layer_index (n + 1) \<le> layer_index N" using n by (simp add: layer_index_def)
    with fits have "fits_float (a1, b1, a2, b2) (layer_index (n + 1))" by (rule fits_float_mono)
    from Previous_Nodes_Func_nonneg [OF assms(6) n(1) this rows' _ T'] Q n(2)
    show "?Q n T'" by auto
  qed
  then obtain rows T where T: "f a1 b1 a2 b2 1 = Some rows"
    "backward minimize_scalar a1 b1 a2 b2 (rev [1..N - 1]) T0 = Some T"
    "map fst T = rows" "?Q 1 T"
    by blast
  from T(3) f_1 [OF T(1)] obtain v c where vc: "T = [((a1, b1, a2, b2), v, c)]"
    by (cases T) auto
  from T(4) have "0 \<le> v" "if N = 1 then c = None else c = Some 0 \<or> c = Some 1"
    unfolding vc by (auto split: if_splits)
  moreover have "Bernoulli_Bandit minimize_scalar a1 b1 a2 b2 N = Some [((a1, b1, a2, b2), v, c)]"
    using T(2) T0(2) by (simp add: Bernoulli_Bandit_def vc)
  ultimately show ?thesis by blast
qed

theorem Bernoulli_Bandit_row_witness:
  "\<exists>v c. Bernoulli_Bandit endpoint_minimizer 1 1 2 1 2 = Some [((1, 1, 2, 1), v, c)]
    \<and> 0 \<le> v \<and> (c = Some 0 \<or> c = Some 1)"
proof -
  have "fits_float (1, 1, 2, 1) (nat (2 - 1))" by (simp add: fits_float_def float_exact_def)
  from Bernoulli_Bandit_row [OF _ _ _ _ _ in_bounds_endpoint_minimizer this]
  show ?thesis by simp
qed

text \<open>Against claim C7 as stated: from \<open>(3, 1, 1, 1)\<close> with two trials the stored choice is
  0, which is neither 1 nor 2; with one trial no choice is stored.\<close>

theorem Bernoulli_Bandit_choice_zero:
  "Bernoulli_Bandit endpoint_minimizer 3 1 1 1 2 = Some [((3, 1, 1, 1), 5 / 2, Some 0)]
   \<and> (0::real) \<notin> {1, 2}
   \<and> Bernoulli_Bandit endpoint_minimizer 1 1 1 1 1 = Some [((1, 1, 1, 1), 1 / 2, None)]"
  by (simp add: Bernoulli_Bandit_def Final_Nodes_def Final_row_def E_1_E_2_def np_divide_def
      f_def ABCD_def np_array_def int64_def float_exact_def
      Previous_Nodes_Func_def Previous_row_def selection_def minimize_func_def
      endpoint_minimizer_def np_round_def)

subsection \<open>The values in the tables\<close>

lemma Previous_row_stored:
  assumes opt: "in_bounds minimize_scalar" "finds_minimum minimize_scalar"
    and "columns04 T = map (\<lambda>s. (s, stored_value t s)) nodes" "distinct nodes"
    and "set (ABCD Node) \<subseteq> set nodes"
    and "case Node of (a, b, c, d) \<Rightarrow> list_all float_exact [a, a + 1, b, b + 1, c, c + 1, d, d + 1]"
  shows "\<exists>c. Previous_row minimize_scalar T Node = Some (Node, stored_value (Suc t) Node, Some c)"
proof (cases Node)
  case (fields a b c d)
  from ABCD_members [OF assms(5) [unfolded fields]]
  have "(a + 1, b, c, d) \<in> set nodes" "(a, b + 1, c, d) \<in> set nodes"
    "(a, b, c + 1, d) \<in> set nodes" "(a, b, c, d + 1) \<in> set nodes"
    by simp_all
  from this [THEN selection_found [OF assms(3,4)]] assms(6)
  show ?thesis
    by (simp add: Previous_row_def fields Let_def rounded_minimize_scalar [OF opt])
qed

lemma list_all2_columns04:
  "list_all2 (\<lambda>x r. fst r = x \<and> fst (snd r) = h x) xs T \<Longrightarrow> columns04 T = map (\<lambda>s. (s, h s)) xs"
  by (induction xs T rule: list_all2_induct) (auto simp: columns04_def)

lemma Previous_Nodes_Func_stored:
  assumes opt: "in_bounds minimize_scalar" "finds_minimum minimize_scalar"
    and "1 \<le> n" "fits_float (a, b, c, d) (layer_index (n + 1))"
    and "f a b c d (n + 1) = Some rows'"
    and "columns04 T = map (\<lambda>s. (s, stored_value t s)) rows'"
    and "Previous_Nodes_Func minimize_scalar a b c d n T = Some T'"
  shows "\<exists>rows. f a b c d n = Some rows
    \<and> columns04 T' = map (\<lambda>s. (s, stored_value (Suc t) s)) rows"
proof -
  let ?s0 = "(a, b, c, d)"
  let ?k = "layer_index n"
  have next_k: "layer_index (n + 1) = Suc ?k" using assms(3) by (rule layer_index_next)
  from f_rows_float [OF assms(4)] assms(5)
  have rows': "distinct rows'" "set rows' = layer ?s0 (Suc ?k)"
    by (auto simp: next_k)
  have "fits_float ?s0 ?k" using assms(4) by (rule fits_float_mono) (simp add: next_k)
  from f_rows_float [OF this]
  obtain rows where rows: "f a b c d n = Some rows" "set rows = layer ?s0 ?k"
    by blast
  have "\<exists>T'. those (map (Previous_row minimize_scalar T) rows) = Some T'
    \<and> list_all2 (\<lambda>x r. fst r = x \<and> fst (snd r) = stored_value (Suc t) x) rows T'"
  proof (rule those_map_ex)
    fix Node assume "Node \<in> set rows"
    then have Node: "Node \<in> layer ?s0 ?k" by (simp only: rows(2))
    from ABCD_in_next [OF this] have sub: "set (ABCD Node) \<subseteq> set rows'"
      by (simp only: rows'(2))
    have guard: "case Node of (a, b, c, d) \<Rightarrow>
        list_all float_exact [a, a + 1, b, b + 1, c, c + 1, d, d + 1]"
      using Node assms(4) by (rule layer_guard) (simp add: next_k)
    from Previous_row_stored [OF opt assms(6) rows'(1) sub guard]
    obtain c where "Previous_row minimize_scalar T Node
        = Some (Node, stored_value (Suc t) Node, Some c)" ..
    then show "\<exists>r. Previous_row minimize_scalar T Node = Some r
        \<and> fst r = Node \<and> fst (snd r) = stored_value (Suc t) Node"
      by simp
  qed
  with rows(1) assms(7) have "list_all2 (\<lambda>x r. fst r = x \<and> fst (snd r) = stored_value (Suc t) x) rows T'"
    by (simp add: Previous_Nodes_Func_def)
  from list_all2_columns04 [OF this] rows(1) show ?thesis by blast
qed

lemma backward_stored:
  assumes opt: "in_bounds minimize_scalar" "finds_minimum minimize_scalar"
    and tot: "1 \<le> a1 + b1" "1 \<le> a2 + b2"
    and fits: "fits_float (a1, b1, a2, b2) (layer_index N)"
    and i: "1 \<le> i" "i \<le> N"
  shows "\<exists>rows T0 T. f a1 b1 a2 b2 i = Some rows \<and> Final_Nodes a1 b1 a2 b2 N = Some T0
    \<and> backward minimize_scalar a1 b1 a2 b2 (rev [i..N - 1]) T0 = Some T
    \<and> columns04 T = map (\<lambda>s. (s, stored_value (nat (N - i)) s)) rows"
proof -
  from Final_Nodes_states [OF tot fits]
  obtain rows0 T0 where T0: "f a1 b1 a2 b2 N = Some rows0" "Final_Nodes a1 b1 a2 b2 N = Some T0"
    "map fst T0 = rows0" "columns04 T0 = map (\<lambda>s. (s, stored_value 0 s)) rows0"
    by blast
  let ?Q = "\<lambda>n T. \<exists>rows. f a1 b1 a2 b2 n = Some rows
      \<and> columns04 T = map (\<lambda>s. (s, stored_value (nat (N - n)) s)) rows"
  have "\<exists>rows T. f a1 b1 a2 b2 i = Some rows
    \<and> backward minimize_scalar a1 b1 a2 b2 (rev [i..N - 1]) T0 = Some T
    \<and> map fst T = rows \<and> ?Q i T"
  proof (rule backward_invariant [where Q = ?Q])
    show "fits_float (a1, b1, a2, b2) (layer_index N)" by (rule fits)
    show "f a1 b1 a2 b2 N = Some rows0" by (rule T0(1))
    show "map fst T0 = rows0" by (rule T0(3))
    show "?Q N T0" using T0(1,4) by simp
    show "1 \<le> i" "i \<le> N" by (rule i)+
  next
    fix n T T' rows'
    assume n: "1 \<le> n" "n < N" and rows': "f a1 b1 a2 b2 (n + 1) = Some rows'"
      and Q: "?Q (n + 1) T"
      and T': "Previous_Nodes_Func minimize_scalar a1 b1 a2 b2 n T = Some T'"
    from Q rows' have T: "columns04 T = map (\<lambda>s. (s, stored_value (nat (N - (n + 1))) s)) rows'"
      by simp
    have "layer_index (n + 1) \<le> layer_index N" using n by (simp add: layer_index_def)
    with fits have "fits_float (a1, b1, a2, b2) (layer_index (n + 1))" by (rule fits_float_mono)
    from Previous_Nodes_Func_stored [OF opt n(1) this rows' T T']
    obtain rows where "f a1 b1 a2 b2 n = Some rows"
      "columns04 T' = map (\<lambda>s. (s, stored_value (Suc (nat (N - (n + 1)))) s)) rows"
      by blast
    moreover from n have "nat (N - n) = Suc (nat (N - (n + 1)))" by simp
    ultimately show "?Q n T'" by simp
  qed
  with T0(2) show ?thesis by auto
qed

lemma stored_value_swap: "stored_value t (a2, b2, a1, b1) = stored_value t (a1, b1, a2, b2)"
  by (induction t arbitrary: a1 b1 a2 b2) (simp_all add: max.commute minimize_func_ends)

lemma arm_values_one:
  assumes "1 \<le> a1 + b1" "1 \<le> a2 + b2" and "fits_float (a1, b1, a2, b2) 0"
  shows "arm_values minimize_scalar a1 b1 a2 b2 1
    = Some (real_of_int a1 / real_of_int (a1 + b1), real_of_int a2 / real_of_int (a2 + b2))"
proof -
  have "fits_int64 (a1, b1, a2, b2) 0" using assms(3) by (rule fits_float_int64)
  then have "f a1 b1 a2 b2 1 = Some [(a1, b1, a2, b2)]"
    by (simp add: f_def np_array_def fits_int64_def)
  moreover have "E_1_E_2 (a1, b1, a2, b2)
    = Some (real_of_int a1 / real_of_int (a1 + b1), real_of_int a2 / real_of_int (a2 + b2))"
    using assms by (intro E_1_E_2_eq) (simp_all add: fits_float_def)
  ultimately show ?thesis by (simp add: arm_values_def)
qed

lemma arm_values_stored:
  assumes opt: "in_bounds minimize_scalar" "finds_minimum minimize_scalar"
    and tot: "1 \<le> a1 + b1" "1 \<le> a2 + b2"
    and fits: "fits_float (a1, b1, a2, b2) (layer_index N)" and N: "2 \<le> N"
  shows "arm_values minimize_scalar a1 b1 a2 b2 N
    = Some (- minimize_func 1 (stored_value (nat (N - 2)) (a1 + 1, b1, a2, b2))
              (stored_value (nat (N - 2)) (a1, b1 + 1, a2, b2))
              (stored_value (nat (N - 2)) (a1, b1, a2 + 1, b2))
              (stored_value (nat (N - 2)) (a1, b1, a2, b2 + 1)),
            - minimize_func 0 (stored_value (nat (N - 2)) (a1 + 1, b1, a2, b2))
              (stored_value (nat (N - 2)) (a1, b1 + 1, a2, b2))
              (stored_value (nat (N - 2)) (a1, b1, a2 + 1, b2))
              (stored_value (nat (N - 2)) (a1, b1, a2, b2 + 1)))"
proof -
  from backward_stored [OF opt tot fits _ N]
  obtain rows T0 T where T: "f a1 b1 a2 b2 2 = Some rows" "Final_Nodes a1 b1 a2 b2 N = Some T0"
    "backward minimize_scalar a1 b1 a2 b2 (rev [2..N - 1]) T0 = Some T"
    "columns04 T = map (\<lambda>s. (s, stored_value (nat (N - 2)) s)) rows"
    by auto
  from f_2 [OF T(1)] T(4)
  have c: "columns04 T = map (\<lambda>s. (s, stored_value (nat (N - 2)) s)) (ABCD (a1, b1, a2, b2))"
    by simp
  have "(a1 + 1, b1, a2, b2) \<in> set (ABCD (a1, b1, a2, b2))"
    "(a1, b1 + 1, a2, b2) \<in> set (ABCD (a1, b1, a2, b2))"
    "(a1, b1, a2 + 1, b2) \<in> set (ABCD (a1, b1, a2, b2))"
    "(a1, b1, a2, b2 + 1) \<in> set (ABCD (a1, b1, a2, b2))"
    by (simp_all add: ABCD_def)
  from this [THEN selection_found [OF c distinct_ABCD]] T(2,3) N
  show ?thesis by (simp add: arm_values_def)
qed

lemma Bernoulli_Bandit_stored:
  assumes opt: "in_bounds minimize_scalar" "finds_minimum minimize_scalar"
    and tot: "1 \<le> a1 + b1" "1 \<le> a2 + b2"
    and fits: "fits_float (a1, b1, a2, b2) (layer_index N)" and N: "1 \<le> N"
  shows "\<exists>c. Bernoulli_Bandit minimize_scalar a1 b1 a2 b2 N
    = Some [((a1, b1, a2, b2), stored_value (nat (N - 1)) (a1, b1, a2, b2), c)]"
proof -
  from backward_stored [OF opt tot fits _ N]
  obtain rows T0 T where T: "f a1 b1 a2 b2 1 = Some rows" "Final_Nodes a1 b1 a2 b2 N = Some T0"
    "backward minimize_scalar a1 b1 a2 b2 (rev [1..N - 1]) T0 = Some T"
    "columns04 T = map (\<lambda>s. (s, stored_value (nat (N - 1)) s)) rows"
    by auto
  from f_1 [OF T(1)] T(4)
  obtain c where "T = [((a1, b1, a2, b2), stored_value (nat (N - 1)) (a1, b1, a2, b2), c)]"
    by (cases T) (auto simp: columns04_def)
  with T(2,3) show ?thesis by (simp add: Bernoulli_Bandit_def)
qed

lemma fits_float_swap: "fits_float (a2, b2, a1, b1) k \<longleftrightarrow> fits_float (a1, b1, a2, b2) k"
  by (auto simp: fits_float_def)

lemma fits_float_ones:
  assumes "fits_float (a1, b1, a2, b2) k" "1 \<le> a1 + b1"
  shows "fits_float (1, 1, 1, 1) k"
  using assms by (auto simp: fits_float_def float_exact_def)

text \<open>
  Claim C9. With an optimizer that stays within its bounds and comes closer than a half
  to a minimum, for every initial state with positive totals, every \<open>N \<ge> 1\<close> and counts
  that stay below \<open>2^53\<close> in size up to the final layer: the two values between which the
  run from \<open>(a1, b1, a2, b2)\<close> chooses are, in the other order, those of the run from
  \<open>(a2, b2, a1, b1)\<close>, and the larger is the value the run returns; from \<open>(1, 1, 1, 1)\<close>
  the two values are equal.
\<close>

theorem arm_values_swap:
  assumes "in_bounds minimize_scalar" "finds_minimum minimize_scalar"
    and "1 \<le> a1 + b1" "1 \<le> a2 + b2" and "1 \<le> N"
    and "fits_float (a1, b1, a2, b2) (nat (N - 1))"
  shows "(\<exists>v1 v2 c. arm_values minimize_scalar a1 b1 a2 b2 N = Some (v1, v2)
        \<and> arm_values minimize_scalar a2 b2 a1 b1 N = Some (v2, v1)
        \<and> Bernoulli_Bandit minimize_scalar a1 b1 a2 b2 N = Some [((a1, b1, a2, b2), max v1 v2, c)])
    \<and> (\<exists>v. arm_values minimize_scalar 1 1 1 1 N = Some (v, v))"
proof (cases "N = 1")
  case True
  have fits: "fits_float (a1, b1, a2, b2) 0" using assms(6) True by simp
  have fits': "fits_float (a2, b2, a1, b1) 0" using fits by (simp only: fits_float_swap)
  have ones: "fits_float (1, 1, 1, 1) 0" using fits assms(3) by (rule fits_float_ones)
  let ?v1 = "real_of_int a1 / real_of_int (a1 + b1)"
  let ?v2 = "real_of_int a2 / real_of_int (a2 + b2)"
  have 1: "arm_values minimize_scalar a1 b1 a2 b2 N = Some (?v1, ?v2)"
    unfolding True using assms(3,4) fits by (rule arm_values_one)
  have 2: "arm_values minimize_scalar a2 b2 a1 b1 N = Some (?v2, ?v1)"
    unfolding True using assms(4,3) fits' by (rule arm_values_one)
  have "fits_float (a1, b1, a2, b2) (layer_index N)" using fits True by (simp add: layer_index_def)
  from Bernoulli_Bandit_stored [OF assms(1-4) this assms(5)] True
  obtain c where 3: "Bernoulli_Bandit minimize_scalar a1 b1 a2 b2 N
      = Some [((a1, b1, a2, b2), max ?v1 ?v2, c)]"
    by auto
  have 4: "arm_values minimize_scalar 1 1 1 1 N = Some (1 / 2, 1 / 2)"
    unfolding True using arm_values_one [OF _ _ ones, of minimize_scalar] by simp
  from 1 2 3 4 show ?thesis by blast
next
  case False
  with assms(5) have N: "2 \<le> N" by simp
  have fits: "fits_float (a1, b1, a2, b2) (layer_index N)"
    using assms(5,6) by (simp add: layer_index_pos)
  have fits': "fits_float (a2, b2, a1, b1) (layer_index N)" using fits by (simp only: fits_float_swap)
  have ones: "fits_float (1, 1, 1, 1) (layer_index N)" using fits assms(3) by (rule fits_float_ones)
  let ?t = "nat (N - 2)"
  let ?v1 = "1 + stored_value ?t (a1 + 1, b1, a2, b2) + stored_value ?t (a1, b1 + 1, a2, b2)"
  let ?v2 = "1 + stored_value ?t (a1, b1, a2 + 1, b2) + stored_value ?t (a1, b1, a2, b2 + 1)"
  have 1: "arm_values minimize_scalar a1 b1 a2 b2 N = Some (?v1, ?v2)"
    by (simp add: arm_values_stored [OF assms(1-4) fits N] minimize_func_ends)
  have "stored_value ?t (a2 + 1, b2, a1, b1) = stored_value ?t (a1, b1, a2 + 1, b2)"
    "stored_value ?t (a2, b2 + 1, a1, b1) = stored_value ?t (a1, b1, a2, b2 + 1)"
    "stored_value ?t (a2, b2, a1 + 1, b1) = stored_value ?t (a1 + 1, b1, a2, b2)"
    "stored_value ?t (a2, b2, a1, b1 + 1) = stored_value ?t (a1, b1 + 1, a2, b2)"
    by (rule stored_value_swap)+
  then have 2: "arm_values minimize_scalar a2 b2 a1 b1 N = Some (?v2, ?v1)"
    by (simp add: arm_values_stored [OF assms(1,2,4,3) fits' N] minimize_func_ends)
  have "nat (N - 1) = Suc ?t" using N by simp
  with Bernoulli_Bandit_stored [OF assms(1-4) fits assms(5)]
  obtain c where 3: "Bernoulli_Bandit minimize_scalar a1 b1 a2 b2 N
      = Some [((a1, b1, a2, b2), max ?v1 ?v2, c)]"
    by (auto simp: minimize_func_ends)
  have "arm_values minimize_scalar 1 1 1 1 N
      = Some (1 + stored_value ?t (2, 1, 1, 1) + stored_value ?t (1, 2, 1, 1),
              1 + stored_value ?t (1, 1, 2, 1) + stored_value ?t (1, 1, 1, 2))"
    using arm_values_stored [OF assms(1,2) _ _ ones N]
    by (simp add: minimize_func_ends)
  moreover have "stored_value ?t (1, 1, 2, 1) = stored_value ?t (2, 1, 1, 1)"
    "stored_value ?t (1, 1, 1, 2) = stored_value ?t (1, 2, 1, 1)"
    by (rule stored_value_swap)+
  ultimately have 4: "\<exists>v. arm_values minimize_scalar 1 1 1 1 N = Some (v, v)" by simp
  from 1 2 3 4 show ?thesis by blast
qed

theorem arm_values_swap_witness:
  "arm_values endpoint_minimizer 2 1 1 1 2 = Some (9 / 4, 7 / 3)
   \<and> arm_values endpoint_minimizer 1 1 2 1 2 = Some (7 / 3, 9 / 4)
   \<and> (\<exists>v. arm_values endpoint_minimizer 1 1 1 1 5 = Some (v, v))
   \<and> arm_values endpoint_minimizer 3 1 1 1 1 = Some (3 / 4, 1 / 2)
   \<and> arm_values endpoint_minimizer 1 1 3 1 1 = Some (1 / 2, 3 / 4)"
proof -
  have h: "(1::int) \<le> 2 + 1" "(1::int) \<le> 1 + 1" "(1::int) \<le> 2" "(1::int) \<le> 5"
    "(1::int) \<le> 3 + 1" "(1::int) \<le> 1"
    "fits_float (2, 1, 1, 1) (nat (2 - 1))" "fits_float (2, 1, 1, 1) (nat (5 - 1))"
    "fits_float (3, 1, 1, 1) (nat (1 - 1))"
    by (simp_all add: fits_float_def float_exact_def)
  note t = arm_values_swap [OF in_bounds_endpoint_minimizer finds_minimum_endpoint_minimizer]
  have 1: "arm_values endpoint_minimizer 2 1 1 1 2 = Some (9 / 4, 7 / 3)"
    by (simp add: arm_values_def Final_Nodes_def Final_row_def E_1_E_2_def np_divide_def f_def
        ABCD_def np_array_def int64_def float_exact_def selection_def minimize_func_def)
  from 1 t [OF h(1,2,3,7), THEN conjunct1]
  have 2: "arm_values endpoint_minimizer 1 1 2 1 2 = Some (7 / 3, 9 / 4)" by auto
  from t [OF h(1,2,4,8), THEN conjunct2]
  have 3: "\<exists>v. arm_values endpoint_minimizer 1 1 1 1 5 = Some (v, v)" .
  have 4: "arm_values endpoint_minimizer 3 1 1 1 1 = Some (3 / 4, 1 / 2)"
    by (simp add: arm_values_def E_1_E_2_def np_divide_def f_def np_array_def int64_def
        float_exact_def)
  from 4 t [OF h(5,2,6,9), THEN conjunct1]
  have 5: "arm_values endpoint_minimizer 1 1 3 1 1 = Some (1 / 2, 3 / 4)" by auto
  from 1 2 3 4 5 show ?thesis by blast
qed

text \<open>
  Claim C1 fails on the notebook. \<open>minimize_func\<close> weighs the two machines by \<open>p\<close>, but
  not the success and the failure of a machine by its posterior mean: the value it
  stores for a machine is \<open>1 + E1 + E2\<close>, the reward of a success plus both successors'
  values. In the state \<open>(2, 1, 1, 1)\<close> with two trials the notebook stores \<open>7/3\<close>, more
  than two trials can pay, and chooses machine 2; the recursion of the specification
  gives \<open>4/3\<close>, with machine 1.
\<close>

theorem Bernoulli_Bandit_not_expected_value:
  "Bernoulli_Bandit endpoint_minimizer 2 1 1 1 2 = Some [((2, 1, 1, 1), 7 / 3, Some 0)]
   \<and> specified_value 2 (2, 1, 1, 1) = 4 / 3"
proof
  show "Bernoulli_Bandit endpoint_minimizer 2 1 1 1 2 = Some [((2, 1, 1, 1), 7 / 3, Some 0)]"
    by (simp add: Bernoulli_Bandit_def Final_Nodes_def Final_row_def E_1_E_2_def np_divide_def
        f_def ABCD_def np_array_def int64_def float_exact_def
        Previous_Nodes_Func_def Previous_row_def selection_def minimize_func_def
        endpoint_minimizer_def np_round_def)
  show "specified_value 2 (2, 1, 1, 1) = 4 / 3"
    by (simp add: numeral_2_eq_2)
qed

text \<open>
  Claim C6 fails on the notebook in its last part. From \<open>(1, 1, 1, 1)\<close> with \<open>N = 2\<close> the
  final rows have the values \<open>2/3, 1/2, 2/3, 1/2\<close> of the claim, but the value stored for
  the initial state is \<open>1 + 2/3 + 1/2 = 13/6\<close>, whatever point the optimizer returns, and
  not the \<open>13/12\<close> of the specification's recursion, which the claim rounds to 1.0835.
\<close>

theorem Bernoulli_Bandit_scenario:
  "Final_Nodes 1 1 1 1 2 = Some [((2, 1, 1, 1), 2 / 3, None), ((1, 2, 1, 1), 1 / 2, None),
        ((1, 1, 2, 1), 2 / 3, None), ((1, 1, 1, 2), 1 / 2, None)]
   \<and> columns04 (the (Bernoulli_Bandit minimize_scalar 1 1 1 1 2)) = [((1, 1, 1, 1), 13 / 6)]
   \<and> specified_value 2 (1, 1, 1, 1) = 13 / 12"
proof (intro conjI)
  show F: "Final_Nodes 1 1 1 1 2 = Some [((2, 1, 1, 1), 2 / 3, None), ((1, 2, 1, 1), 1 / 2, None),
        ((1, 1, 2, 1), 2 / 3, None), ((1, 1, 1, 2), 1 / 2, None)]"
    by (simp add: Final_Nodes_def Final_row_def E_1_E_2_def np_divide_def f_def ABCD_def
        np_array_def int64_def float_exact_def)
  have v: "- minimize_func x (2 / 3) (1 / 2) (2 / 3) (1 / 2) = 13 / 6" for x
    by (simp add: minimize_func_affine)
  show "columns04 (the (Bernoulli_Bandit minimize_scalar 1 1 1 1 2)) = [((1, 1, 1, 1), 13 / 6)]"
    by (simp add: Bernoulli_Bandit_def F f_def np_array_def int64_def float_exact_def
        Previous_Nodes_Func_def Previous_row_def selection_def columns04_def Let_def v)
  show "specified_value 2 (1, 1, 1, 1) = 13 / 12"
    by (simp add: numeral_2_eq_2)
qed

text \<open>
  Claim C4 fails on the notebook, by the defect of claim C1. Rounding the optimizer's
  point does give the larger of the objective's two end values (lemma
  \<open>rounded_minimize_scalar\<close>), but these are \<open>1 + E1 + E2\<close> and \<open>1 + E3 + E4\<close> and not the
  two machines' values of the specification. For the state \<open>(2, 1, 1, 1)\<close> above its final
  layer the notebook stores \<open>7/3\<close>, and the direct maximization gives \<open>4/3\<close>.
\<close>

theorem Previous_Nodes_Func_not_direct_maximization:
  "map_option columns04 (Previous_Nodes_Func endpoint_minimizer 2 1 1 1 1
      [((3, 1, 1, 1), 3 / 4, None), ((2, 2, 1, 1), 1 / 2, None),
       ((2, 1, 2, 1), 2 / 3, None), ((2, 1, 1, 2), 2 / 3, None)])
    = Some [((2, 1, 1, 1), 7 / 3)]
   \<and> direct_maximization 2 1 1 1 1
      [((3, 1, 1, 1), 3 / 4, None), ((2, 2, 1, 1), 1 / 2, None),
       ((2, 1, 2, 1), 2 / 3, None), ((2, 1, 1, 2), 2 / 3, None)]
    = Some [((2, 1, 1, 1), 4 / 3)]
   \<and> Final_Nodes 2 1 1 1 2
    = Some [((3, 1, 1, 1), 3 / 4, None), ((2, 2, 1, 1), 1 / 2, None),
       ((2, 1, 2, 1), 2 / 3, None), ((2, 1, 1, 2), 2 / 3, None)]"
  by (simp add: Previous_Nodes_Func_def Previous_row_def direct_maximization_def direct_row_def
      arm_value_def Final_Nodes_def Final_row_def E_1_E_2_def np_divide_def
      f_def ABCD_def np_array_def int64_def float_exact_def selection_def minimize_func_def
      endpoint_minimizer_def np_round_def columns04_def)

subsection \<open>Lookups in the tables of the enumerator\<close>

text \<open>When the table passed to \<open>Previous_Nodes_Func\<close> has the states of the enumerator's
  next layer, each of the four lookups for a state of the layer selects exactly one
  row. A state that is in no row of the table selects nothing.\<close>

lemma successors_found:
  assumes "1 \<le> n" "fits_int64 (a, b, c, d) (layer_index (n + 1))"
    and "f a b c d (n + 1) = Some rows'" "map fst T = rows'"
    and "f a b c d n = Some rows" "Node \<in> set rows" "A \<in> set (ABCD Node)"
  shows "\<exists>E. selection T A = [E]"
proof -
  have next_k: "layer_index (n + 1) = Suc (layer_index n)" using assms(1) by (rule layer_index_next)
  from f_rows [OF assms(2)] assms(3)
  have rows': "distinct rows'" "set rows' = layer (a, b, c, d) (Suc (layer_index n))"
    by (auto simp: next_k)
  have "fits_int64 (a, b, c, d) (layer_index n)"
    using assms(2) by (rule fits_int64_mono) (simp add: next_k)
  from f_rows [OF this] assms(5,6) have "Node \<in> layer (a, b, c, d) (layer_index n)" by auto
  from ABCD_in_next [OF this] assms(7) rows'(2) assms(4) have "A \<in> fst ` set T"
    by (metis set_map subsetD)
  moreover have "distinct (map fst T)" by (simp add: assms(4) rows'(1))
  ultimately show ?thesis using selection_member by blast
qed

lemma selection_absent: "A \<notin> fst ` set T \<Longrightarrow> selection T A = []"
  by (auto simp: selection_def filter_empty_conv)

end
